theory Spec2Isabelle
  imports Main "HOL-Library.Word" "HOL-Library.Sublist"
begin

unbundle bit_operations_syntax

section \<open>Strings of the host language\<close>

text \<open>
  A JavaScript string is a sequence of 16-bit code units. \<open>ascii\<close> embeds the
  string literals of \<^verbatim>\<open>script.js\<close>, which are all ASCII.
\<close>

type_synonym jsstring = "16 word list"

definition ascii :: "string \<Rightarrow> jsstring" where
  "ascii s = map of_char s"

text \<open>
  \<^verbatim>\<open>String.prototype.trim\<close> strips the code units of WhiteSpace and
  LineTerminator from both ends.
\<close>

definition isWhiteSpace :: "16 word \<Rightarrow> bool" where
  "isWhiteSpace c \<longleftrightarrow>
     c = 0x9 \<or> c = 0xA \<or> c = 0xB \<or> c = 0xC \<or> c = 0xD \<or> c = 0x20 \<or> c = 0xA0 \<or>
     c = 0x1680 \<or> (0x2000 \<le> c \<and> c \<le> 0x200A) \<or> c = 0x2028 \<or> c = 0x2029 \<or>
     c = 0x202F \<or> c = 0x205F \<or> c = 0x3000 \<or> c = 0xFEFF"

definition trim :: "jsstring \<Rightarrow> jsstring" where
  "trim s = rev (dropWhile isWhiteSpace (rev (dropWhile isWhiteSpace s)))"

text \<open>Digits of a natural number in a radix, most significant first.\<close>

fun digits :: "nat \<Rightarrow> nat \<Rightarrow> nat list" where
  "digits b n = (if b < 2 \<or> n < b then [n] else digits b (n div b) @ [n mod b])"

declare digits.simps [simp del]

definition digitChar :: "nat \<Rightarrow> 16 word" where
  "digitChar d = (if d < 10 then of_nat (48 + d) else of_nat (87 + d))"

text \<open>\<^verbatim>\<open>n.toString(radix)\<close> for a non-negative integer \<open>n\<close>.\<close>

definition toStringRadix :: "nat \<Rightarrow> nat \<Rightarrow> jsstring" where
  "toStringRadix b n = map digitChar (digits b n)"

section \<open>JSON values\<close>

text \<open>
  The values \<^verbatim>\<open>JSON.parse\<close> produces. A number \<open>JNum m e\<close> stands for
  \<open>m * 10 ^ e\<close>, kept exact and normalised (\<open>m\<close> not divisible by ten, zero as
  \<open>JNum 0 0\<close>); the rounding to IEEE doubles is outside this development. An
  object is the list of its own properties in enumeration order.
\<close>

datatype json =
    JNull
  | JBool bool
  | JNum int int
  | JStr jsstring
  | JArr "json list"
  | JObj "(jsstring \<times> json) list"

type_synonym todo = "(jsstring \<times> json) list"

text \<open>Property read \<^verbatim>\<open>o.k\<close>: \<open>None\<close> is \<^verbatim>\<open>undefined\<close>.\<close>

definition get_prop :: "todo \<Rightarrow> jsstring \<Rightarrow> json option" where
  "get_prop ps k = map_of ps k"

text \<open>
  Property write \<^verbatim>\<open>o.k = v\<close> for a key that is not an array index: an
  existing property keeps its place, a new one goes last.
\<close>

fun set_prop :: "jsstring \<Rightarrow> json \<Rightarrow> todo \<Rightarrow> todo" where
  "set_prop k v [] = [(k, v)]"
| "set_prop k v (p # ps) = (if fst p = k then (k, v) # ps else p # set_prop k v ps)"

text \<open>ToBoolean, on a property read.\<close>

fun truthy :: "json option \<Rightarrow> bool" where
  "truthy None = False"
| "truthy (Some JNull) = False"
| "truthy (Some (JBool b)) = b"
| "truthy (Some (JNum m e)) = (m \<noteq> 0)"
| "truthy (Some (JStr s)) = (s \<noteq> [])"
| "truthy (Some (JArr xs)) = True"
| "truthy (Some (JObj ps)) = True"

text \<open>
  \<^verbatim>\<open>a === b\<close> where \<open>a\<close> is a property read and \<open>b\<close> an argument.
  Primitives compare by value. Two objects are equal only when they are the same
  reference; the values here carry no references, so an object or array on the
  left is equal to no argument.
\<close>

fun strict_eq :: "json option \<Rightarrow> json \<Rightarrow> bool" where
  "strict_eq None b = False"
| "strict_eq (Some (JArr xs)) b = False"
| "strict_eq (Some (JObj ps)) b = False"
| "strict_eq (Some a) b = (a = b)"

section \<open>JSON.stringify\<close>

definition hexChar :: "16 word \<Rightarrow> 16 word" where
  "hexChar n = (if n < 10 then 0x30 + n else 0x57 + n)"

definition unicodeEscape :: "16 word \<Rightarrow> jsstring" where
  "unicodeEscape c =
     [0x5C, 0x75, hexChar (drop_bit 12 c), hexChar (drop_bit 8 c AND 0xF),
      hexChar (drop_bit 4 c AND 0xF), hexChar (c AND 0xF)]"

definition isLeadingSurrogate :: "16 word \<Rightarrow> bool" where
  "isLeadingSurrogate c \<longleftrightarrow> 0xD800 \<le> c \<and> c \<le> 0xDBFF"

definition isTrailingSurrogate :: "16 word \<Rightarrow> bool" where
  "isTrailingSurrogate c \<longleftrightarrow> 0xDC00 \<le> c \<and> c \<le> 0xDFFF"

text \<open>The body of QuoteJSONString, without the enclosing quotes.\<close>

fun quoteChars :: "jsstring \<Rightarrow> jsstring" where
  "quoteChars [] = []"
| "quoteChars (c # cs) =
     (if c = 0x8 then [0x5C, 0x62] @ quoteChars cs
      else if c = 0x9 then [0x5C, 0x74] @ quoteChars cs
      else if c = 0xA then [0x5C, 0x6E] @ quoteChars cs
      else if c = 0xC then [0x5C, 0x66] @ quoteChars cs
      else if c = 0xD then [0x5C, 0x72] @ quoteChars cs
      else if c = 0x22 then [0x5C, 0x22] @ quoteChars cs
      else if c = 0x5C then [0x5C, 0x5C] @ quoteChars cs
      else if c < 0x20 then unicodeEscape c @ quoteChars cs
      else if isLeadingSurrogate c then
        (case cs of
           [] \<Rightarrow> unicodeEscape c
         | d # ds \<Rightarrow>
             if isTrailingSurrogate d then c # d # quoteChars ds
             else unicodeEscape c @ quoteChars cs)
      else if isTrailingSurrogate c then unicodeEscape c @ quoteChars cs
      else c # quoteChars cs)"

definition quoteJSONString :: "jsstring \<Rightarrow> jsstring" where
  "quoteJSONString s = [0x22] @ quoteChars s @ [0x22]"

text \<open>
  Number::toString in radix ten, on the exact decimal \<open>m * 10 ^ e\<close> with \<open>m\<close>
  positive and not divisible by ten: \<open>k\<close> digits, decimal point after \<open>n\<close>.
\<close>

definition positiveToString :: "nat \<Rightarrow> int \<Rightarrow> jsstring" where
  "positiveToString m e =
     (let ds = toStringRadix 10 m; k = int (length ds); n = k + e in
      if k \<le> n \<and> n \<le> 21 then ds @ replicate (nat (n - k)) 0x30
      else if 0 < n \<and> n \<le> 21 then take (nat n) ds @ [0x2E] @ drop (nat n) ds
      else if - 6 < n \<and> n \<le> 0 then [0x30, 0x2E] @ replicate (nat (- n)) 0x30 @ ds
      else
        (let x = (if n - 1 < 0 then [0x2D] else [0x2B]) @ toStringRadix 10 (nat \<bar>n - 1\<bar>) in
         if k = 1 then ds @ [0x65] @ x
         else take 1 ds @ [0x2E] @ drop 1 ds @ [0x65] @ x))"

definition numberToString :: "int \<Rightarrow> int \<Rightarrow> jsstring" where
  "numberToString m e =
     (if m = 0 then [0x30]
      else if m < 0 then [0x2D] @ positiveToString (nat (- m)) e
      else positiveToString (nat m) e)"

text \<open>
  \<^verbatim>\<open>JSON.stringify(value)\<close> without indentation: no white space is
  written, array elements and object members are separated by commas.
\<close>

fun JSON_stringify :: "json \<Rightarrow> jsstring"
  and stringify_elements :: "json list \<Rightarrow> jsstring"
  and stringify_members :: "(jsstring \<times> json) list \<Rightarrow> jsstring" where
  "JSON_stringify JNull = ascii ''null''"
| "JSON_stringify (JBool b) = (if b then ascii ''true'' else ascii ''false'')"
| "JSON_stringify (JNum m e) = numberToString m e"
| "JSON_stringify (JStr s) = quoteJSONString s"
| "JSON_stringify (JArr xs) = [0x5B] @ stringify_elements xs @ [0x5D]"
| "JSON_stringify (JObj ps) = [0x7B] @ stringify_members ps @ [0x7D]"
| "stringify_elements [] = []"
| "stringify_elements [x] = JSON_stringify x"
| "stringify_elements (x # y # ys) = JSON_stringify x @ [0x2C] @ stringify_elements (y # ys)"
| "stringify_members [] = []"
| "stringify_members [(k, v)] = quoteJSONString k @ [0x3A] @ JSON_stringify v"
| "stringify_members ((k, v) # q # qs) =
     quoteJSONString k @ [0x3A] @ JSON_stringify v @ [0x2C] @ stringify_members (q # qs)"

section \<open>JSON.parse\<close>

text \<open>
  The JSON grammar of ECMA-404 as a recursive-descent parser. Nested values are
  parsed with a fuel argument that bounds the depth of the recursion;
  \<open>JSON_parse\<close> supplies fuel that no input can exhaust.
\<close>

datatype 'a presult = POk 'a jsstring | PSyntaxError | POutOfFuel

definition isJSONWhiteSpace :: "16 word \<Rightarrow> bool" where
  "isJSONWhiteSpace c \<longleftrightarrow> c = 0x9 \<or> c = 0xA \<or> c = 0xD \<or> c = 0x20"

definition skip_ws :: "jsstring \<Rightarrow> jsstring" where
  "skip_ws s = dropWhile isJSONWhiteSpace s"

definition hexVal :: "16 word \<Rightarrow> 16 word option" where
  "hexVal c =
     (if 0x30 \<le> c \<and> c \<le> 0x39 then Some (c - 0x30)
      else if 0x61 \<le> c \<and> c \<le> 0x66 then Some (c - 0x57)
      else if 0x41 \<le> c \<and> c \<le> 0x46 then Some (c - 0x37)
      else None)"

definition hex4 :: "16 word \<Rightarrow> 16 word \<Rightarrow> 16 word \<Rightarrow> 16 word \<Rightarrow> 16 word option" where
  "hex4 a b c d =
     (case (hexVal a, hexVal b, hexVal c, hexVal d) of
        (Some w, Some x, Some y, Some z) \<Rightarrow>
          Some (push_bit 12 w OR push_bit 8 x OR push_bit 4 y OR z)
      | _ \<Rightarrow> None)"

text \<open>The single-character escapes \<^verbatim>\<open>\" \\ \/ \b \f \n \r \t\<close>.\<close>

definition escapeVal :: "16 word \<Rightarrow> 16 word option" where
  "escapeVal e =
     (if e = 0x22 then Some 0x22
      else if e = 0x5C then Some 0x5C
      else if e = 0x2F then Some 0x2F
      else if e = 0x62 then Some 0x8
      else if e = 0x66 then Some 0xC
      else if e = 0x6E then Some 0xA
      else if e = 0x72 then Some 0xD
      else if e = 0x74 then Some 0x9
      else None)"

definition consChar :: "16 word \<Rightarrow> (jsstring \<times> jsstring) option \<Rightarrow> (jsstring \<times> jsstring) option" where
  "consChar c r = (case r of None \<Rightarrow> None | Some (str, rest) \<Rightarrow> Some (c # str, rest))"

text \<open>
  The characters of a string after its opening quote, up to and including the
  closing quote: the decoded string and the input that follows.
\<close>

fun parse_string_chars :: "jsstring \<Rightarrow> (jsstring \<times> jsstring) option" where
  "parse_string_chars [] = None"
| "parse_string_chars (c # cs) =
     (if c = 0x22 then Some ([], cs)
      else if c = 0x5C then
        (case cs of
           [] \<Rightarrow> None
         | e # es \<Rightarrow>
             if e = 0x75 then
               (case es of
                  h1 # h2 # h3 # h4 # rest \<Rightarrow>
                    (case hex4 h1 h2 h3 h4 of
                       None \<Rightarrow> None
                     | Some u \<Rightarrow> consChar u (parse_string_chars rest))
                | _ \<Rightarrow> None)
             else
               (case escapeVal e of
                  None \<Rightarrow> None
                | Some u \<Rightarrow> consChar u (parse_string_chars es)))
      else if c < 0x20 then None
      else consChar c (parse_string_chars cs))"

definition isDigit :: "16 word \<Rightarrow> bool" where
  "isDigit c \<longleftrightarrow> 0x30 \<le> c \<and> c \<le> 0x39"

definition nat_of_digits :: "jsstring \<Rightarrow> nat" where
  "nat_of_digits cs = foldl (\<lambda>a c. 10 * a + (unat c - 48)) 0 cs"

text \<open>
  The number with decimal digits \<open>ds\<close>, sign \<open>neg\<close> and exponent \<open>e\<close>,
  normalised: trailing zeros of the digits move into the exponent.
\<close>

definition mk_num :: "bool \<Rightarrow> jsstring \<Rightarrow> int \<Rightarrow> json" where
  "mk_num neg ds e =
     (let ds' = rev (dropWhile (\<lambda>c. c = 0x30) (rev ds));
          m = nat_of_digits ds' in
      if m = 0 then JNum 0 0
      else JNum (if neg then - int m else int m) (e + int (length ds) - int (length ds')))"

definition parse_int_part :: "jsstring \<Rightarrow> (jsstring \<times> jsstring) option" where
  "parse_int_part s =
     (case s of
        [] \<Rightarrow> None
      | c # cs \<Rightarrow>
          if c = 0x30 then Some ([c], cs)
          else if isDigit c then Some (c # takeWhile isDigit cs, dropWhile isDigit cs)
          else None)"

definition parse_frac :: "jsstring \<Rightarrow> (jsstring \<times> jsstring) option" where
  "parse_frac s =
     (case s of
        [] \<Rightarrow> Some ([], [])
      | c # cs \<Rightarrow>
          if c = 0x2E then
            (if takeWhile isDigit cs = [] then None
             else Some (takeWhile isDigit cs, dropWhile isDigit cs))
          else Some ([], s))"

definition parse_exp :: "jsstring \<Rightarrow> (int \<times> jsstring) option" where
  "parse_exp s =
     (case s of
        [] \<Rightarrow> Some (0, [])
      | c # cs \<Rightarrow>
          if c = 0x65 \<or> c = 0x45 then
            (let neg = (case cs of [] \<Rightarrow> False | d # r \<Rightarrow> d = 0x2D);
                 ds = (case cs of [] \<Rightarrow> [] | d # r \<Rightarrow> if d = 0x2D \<or> d = 0x2B then r else cs) in
             if takeWhile isDigit ds = [] then None
             else Some ((if neg then - int (nat_of_digits (takeWhile isDigit ds))
                         else int (nat_of_digits (takeWhile isDigit ds))),
                        dropWhile isDigit ds))
          else Some (0, s))"

definition parse_number :: "jsstring \<Rightarrow> (json \<times> jsstring) option" where
  "parse_number s =
     (let neg = (case s of [] \<Rightarrow> False | c # cs \<Rightarrow> c = 0x2D);
          s1 = (case s of [] \<Rightarrow> [] | c # cs \<Rightarrow> if c = 0x2D then cs else s) in
      case parse_int_part s1 of
        None \<Rightarrow> None
      | Some (ip, s2) \<Rightarrow>
          (case parse_frac s2 of
             None \<Rightarrow> None
           | Some (fp, s3) \<Rightarrow>
               (case parse_exp s3 of
                  None \<Rightarrow> None
                | Some (ex, s4) \<Rightarrow> Some (mk_num neg (ip @ fp) (ex - int (length fp)), s4))))"

text \<open>
  Object keys. A key that is an array index (the canonical decimal numeral of an
  integer below \<open>2^32 - 1\<close>) is enumerated before every other key, in ascending
  numeric order; the other keys follow in creation order.
\<close>

definition array_index :: "jsstring \<Rightarrow> nat option" where
  "array_index k =
     (if k \<noteq> [] \<and> list_all isDigit k \<and> (hd k = 0x30 \<longrightarrow> length k = 1)
         \<and> nat_of_digits k < 4294967295
      then Some (nat_of_digits k) else None)"

fun insert_index :: "nat \<Rightarrow> jsstring \<Rightarrow> json \<Rightarrow> (jsstring \<times> json) list \<Rightarrow> (jsstring \<times> json) list" where
  "insert_index n k v [] = [(k, v)]"
| "insert_index n k v (p # ps) =
     (case array_index (fst p) of
        None \<Rightarrow> (k, v) # p # ps
      | Some i \<Rightarrow> if n < i then (k, v) # p # ps else p # insert_index n k v ps)"

text \<open>CreateDataProperty on an object under construction.\<close>

definition define_prop :: "(jsstring \<times> json) list \<Rightarrow> jsstring \<times> json \<Rightarrow> (jsstring \<times> json) list" where
  "define_prop ps kv =
     (if fst kv \<in> fst ` set ps then set_prop (fst kv) (snd kv) ps
      else case array_index (fst kv) of
             None \<Rightarrow> ps @ [kv]
           | Some n \<Rightarrow> insert_index n (fst kv) (snd kv) ps)"

definition strip_prefix :: "jsstring \<Rightarrow> jsstring \<Rightarrow> jsstring option" where
  "strip_prefix p s = (if take (length p) s = p then Some (drop (length p) s) else None)"

fun parse_value :: "nat \<Rightarrow> jsstring \<Rightarrow> json presult"
  and parse_elements :: "nat \<Rightarrow> json list \<Rightarrow> jsstring \<Rightarrow> json presult"
  and parse_members :: "nat \<Rightarrow> (jsstring \<times> json) list \<Rightarrow> jsstring \<Rightarrow> json presult" where
  "parse_value 0 s = POutOfFuel"
| "parse_value (Suc n) s =
     (case skip_ws s of
        [] \<Rightarrow> PSyntaxError
      | c # cs \<Rightarrow>
          if c = 0x7B then
            (case skip_ws cs of
               [] \<Rightarrow> PSyntaxError
             | d # r \<Rightarrow> if d = 0x7D then POk (JObj []) r else parse_members n [] cs)
          else if c = 0x5B then
            (case skip_ws cs of
               [] \<Rightarrow> PSyntaxError
             | d # r \<Rightarrow> if d = 0x5D then POk (JArr []) r else parse_elements n [] cs)
          else if c = 0x22 then
            (case parse_string_chars cs of
               None \<Rightarrow> PSyntaxError
             | Some (str, r) \<Rightarrow> POk (JStr str) r)
          else if c = 0x74 then
            (case strip_prefix (ascii ''true'') (c # cs) of
               None \<Rightarrow> PSyntaxError
             | Some r \<Rightarrow> POk (JBool True) r)
          else if c = 0x66 then
            (case strip_prefix (ascii ''false'') (c # cs) of
               None \<Rightarrow> PSyntaxError
             | Some r \<Rightarrow> POk (JBool False) r)
          else if c = 0x6E then
            (case strip_prefix (ascii ''null'') (c # cs) of
               None \<Rightarrow> PSyntaxError
             | Some r \<Rightarrow> POk JNull r)
          else
            (case parse_number (c # cs) of
               None \<Rightarrow> PSyntaxError
             | Some (v, r) \<Rightarrow> POk v r))"
| "parse_elements 0 acc s = POutOfFuel"
| "parse_elements (Suc n) acc s =
     (case parse_value n s of
        POutOfFuel \<Rightarrow> POutOfFuel
      | PSyntaxError \<Rightarrow> PSyntaxError
      | POk v r \<Rightarrow>
          (case skip_ws r of
             [] \<Rightarrow> PSyntaxError
           | c # r' \<Rightarrow>
               if c = 0x2C then parse_elements n (acc @ [v]) r'
               else if c = 0x5D then POk (JArr (acc @ [v])) r'
               else PSyntaxError))"
| "parse_members 0 acc s = POutOfFuel"
| "parse_members (Suc n) acc s =
     (case skip_ws s of
        [] \<Rightarrow> PSyntaxError
      | q # s1 \<Rightarrow>
          if q \<noteq> 0x22 then PSyntaxError
          else
            (case parse_string_chars s1 of
               None \<Rightarrow> PSyntaxError
             | Some (k, s2) \<Rightarrow>
                 (case skip_ws s2 of
                    [] \<Rightarrow> PSyntaxError
                  | c # s3 \<Rightarrow>
                      if c \<noteq> 0x3A then PSyntaxError
                      else
                        (case parse_value n s3 of
                           POutOfFuel \<Rightarrow> POutOfFuel
                         | PSyntaxError \<Rightarrow> PSyntaxError
                         | POk v r \<Rightarrow>
                             (case skip_ws r of
                                [] \<Rightarrow> PSyntaxError
                              | d # r' \<Rightarrow>
                                  if d = 0x2C then parse_members n (define_prop acc (k, v)) r'
                                  else if d = 0x7D then POk (JObj (define_prop acc (k, v))) r'
                                  else PSyntaxError)))))"

text \<open>
  \<^verbatim>\<open>JSON.parse(text)\<close>: \<open>None\<close> is the SyntaxError it throws. The whole
  text must be one value, with white space allowed around it.
\<close>

definition JSON_parse :: "jsstring \<Rightarrow> json option" where
  "JSON_parse s =
     (case parse_value (2 * length s + 2) s of
        POk v r \<Rightarrow> if skip_ws r = [] then Some v else None
      | PSyntaxError \<Rightarrow> None
      | POutOfFuel \<Rightarrow> None)"

section \<open>The application: state and environment\<close>

text \<open>
  The fields of \<^verbatim>\<open>TodoApp\<close> that its logic reads or writes, together with
  the parts of the page and of the browser the logic depends on: the values of
  the two input elements, the \<^verbatim>\<open>todos\<close> slot of \<^verbatim>\<open>localStorage\<close>,
  and the notifications shown so far (message and type, oldest first).

  Every element of \<^verbatim>\<open>this.todos\<close> is a plain object: \<^verbatim>\<open>handleAddTodo\<close>
  creates one and the filter of \<^verbatim>\<open>loadTodos\<close> keeps nothing else. A todo
  is therefore the list of its own properties.

  Rendering (\<^verbatim>\<open>renderTodos\<close>, \<^verbatim>\<open>updateStats\<close>, \<^verbatim>\<open>showEmptyState\<close>) writes
  to the page only and is left out. What the browser answers is an argument
  of the operation that asks: the clock, the random source, the answer to a
  \<^verbatim>\<open>confirm\<close> dialog, and whether \<^verbatim>\<open>localStorage.setItem\<close> succeeds.
  Reading and removing the slot never fail.
\<close>

record app =
  todos :: "todo list"
  currentFilter :: jsstring
  editingIndex :: "int option"
  todoInput :: jsstring
  editInput :: jsstring
  modalOpen :: bool
  storage :: "jsstring option"
  notifications :: "(jsstring \<times> jsstring) list"

text \<open>
  The two errors the code throws: \<^verbatim>\<open>Error("Failed to save todos to localStorage")\<close>
  and \<^verbatim>\<open>Error("Failed to load todos from localStorage")\<close>.
\<close>

datatype error = PersistenceError | DeserializationError

text \<open>The state the constructor starts from, given what the browser has stored.\<close>

definition constructed :: "jsstring option \<Rightarrow> app" where
  "constructed stored =
     \<lparr>todos = [], currentFilter = ascii ''all'', editingIndex = None,
      todoInput = [], editInput = [], modalOpen = False,
      storage = stored, notifications = []\<rparr>"

definition showNotification :: "jsstring \<Rightarrow> jsstring \<Rightarrow> app \<Rightarrow> app" where
  "showNotification message type st = st\<lparr>notifications := notifications st @ [(message, type)]\<rparr>"

definition showModal :: "app \<Rightarrow> app" where
  "showModal st = st\<lparr>modalOpen := True\<rparr>"

definition closeModal :: "app \<Rightarrow> app" where
  "closeModal st = st\<lparr>modalOpen := False, editingIndex := None, editInput := []\<rparr>"

section \<open>LocalStorage operations\<close>

definition saveTodos :: "bool \<Rightarrow> app \<Rightarrow> error + app" where
  "saveTodos setItemOk st =
     (if setItemOk then Inr (st\<lparr>storage := Some (JSON_stringify (JArr (map JObj (todos st))))\<rparr>)
      else Inl PersistenceError)"

text \<open>
  The predicate of the filter in \<^verbatim>\<open>loadTodos\<close>. An array has no property
  \<^verbatim>\<open>id\<close>, so of the values with \<^verbatim>\<open>typeof todo === "object"\<close> only plain
  objects can pass.
\<close>

definition valid_todo :: "todo \<Rightarrow> bool" where
  "valid_todo ps \<longleftrightarrow>
     truthy (get_prop ps (ascii ''id'')) \<and>
     (case get_prop ps (ascii ''text'') of
        Some (JStr s) \<Rightarrow> s \<noteq> [] \<and> length (trim s) > 0
      | _ \<Rightarrow> False)"

fun valid_entries :: "json list \<Rightarrow> todo list" where
  "valid_entries [] = []"
| "valid_entries (JObj ps # xs) = (if valid_todo ps then ps # valid_entries xs else valid_entries xs)"
| "valid_entries (x # xs) = valid_entries xs"

text \<open>
  \<^verbatim>\<open>loadTodos\<close>. A stored value that is absent or the empty string is falsy
  and nothing happens. A text that does not parse throws in \<^verbatim>\<open>JSON.parse\<close>;
  a text that parses to anything but an array throws at the call of
  \<^verbatim>\<open>filter\<close>. Both are caught: the slot is removed, the list reset, and
  the error rethrown. \<open>Inl\<close> carries the error and the state left behind.
\<close>

definition loadTodos :: "app \<Rightarrow> error \<times> app + app" where
  "loadTodos st =
     (case storage st of
        None \<Rightarrow> Inr st
      | Some stored \<Rightarrow>
          if stored = [] then Inr st
          else
            (case JSON_parse stored of
               Some (JArr xs) \<Rightarrow> Inr (st\<lparr>todos := valid_entries xs\<rparr>)
             | _ \<Rightarrow> Inl (DeserializationError, st\<lparr>storage := None, todos := []\<rparr>)))"

definition initializeApp :: "app \<Rightarrow> app" where
  "initializeApp st =
     (case loadTodos st of
        Inr st' \<Rightarrow> st'
      | Inl (e, st') \<Rightarrow>
          showNotification (ascii ''Error loading todos. Please refresh the page.'') (ascii ''error'') st')"

section \<open>Operations on the list\<close>

text \<open>\<^verbatim>\<open>Date.now().toString(36) + Math.random().toString(36).substr(2)\<close>\<close>

definition generateId :: "nat \<Rightarrow> jsstring \<Rightarrow> jsstring" where
  "generateId now random36 = toStringRadix 36 now @ drop 2 random36"

text \<open>
  \<^verbatim>\<open>handleAddTodo\<close>. \<open>now\<close> is the reading of \<^verbatim>\<open>Date.now()\<close>,
  \<open>random36\<close> the text of \<^verbatim>\<open>Math.random().toString(36)\<close>, \<open>iso1\<close> and
  \<open>iso2\<close> the texts of the two \<^verbatim>\<open>new Date().toISOString()\<close>, in the order
  the object literal evaluates them.
\<close>

definition handleAddTodo :: "nat \<Rightarrow> jsstring \<Rightarrow> jsstring \<Rightarrow> jsstring \<Rightarrow> bool \<Rightarrow> app \<Rightarrow> app" where
  "handleAddTodo now random36 iso1 iso2 setItemOk st =
     (let text = trim (todoInput st) in
      if text = [] then st
      else
        (let todo = [(ascii ''id'', JStr (generateId now random36)),
                     (ascii ''text'', JStr text),
                     (ascii ''completed'', JBool False),
                     (ascii ''createdAt'', JStr iso1),
                     (ascii ''updatedAt'', JStr iso2)];
             st1 = st\<lparr>todos := todo # todos st\<rparr> in
         case saveTodos setItemOk st1 of
           Inr st2 \<Rightarrow>
             showNotification (ascii ''Task added successfully!'') (ascii ''success'')
               (st2\<lparr>todoInput := []\<rparr>)
         | Inl e \<Rightarrow>
             showNotification (ascii ''Error adding task. Please try again.'') (ascii ''error'') st1))"

definition handleFilterChange :: "jsstring \<Rightarrow> app \<Rightarrow> app" where
  "handleFilterChange f st =
     (if f = currentFilter st then st else st\<lparr>currentFilter := f\<rparr>)"

text \<open>
  \<^verbatim>\<open>this.todos.find((t) => t.id === id)\<close>, as the position of the todo found:
  the code goes on to change that object in place.
\<close>

fun find_todo :: "json \<Rightarrow> todo list \<Rightarrow> nat option" where
  "find_todo tid [] = None"
| "find_todo tid (t # ts) =
     (if strict_eq (get_prop t (ascii ''id'')) tid then Some 0
      else map_option Suc (find_todo tid ts))"

definition toggleTodo :: "json \<Rightarrow> jsstring \<Rightarrow> bool \<Rightarrow> app \<Rightarrow> app" where
  "toggleTodo tid isoNow setItemOk st =
     (case find_todo tid (todos st) of
        None \<Rightarrow> st
      | Some i \<Rightarrow>
          (let todo = todos st ! i;
               flipped = \<not> truthy (get_prop todo (ascii ''completed''));
               todo' = set_prop (ascii ''updatedAt'') (JStr isoNow)
                         (set_prop (ascii ''completed'') (JBool flipped) todo);
               st1 = st\<lparr>todos := (todos st)[i := todo']\<rparr> in
           case saveTodos setItemOk st1 of
             Inr st2 \<Rightarrow>
               showNotification
                 (if flipped then ascii ''Task marked as completed!''
                  else ascii ''Task marked as active!'')
                 (ascii ''success'') st2
           | Inl e \<Rightarrow>
               showNotification (ascii ''Error updating task. Please try again.'') (ascii ''error'') st1))"

text \<open>
  What the edit field shows once \<^verbatim>\<open>todo.text\<close> is assigned to its value.
  The text of every todo is a string; the conversion of other values is left
  unspecified.
\<close>

fun to_DOMString :: "json option \<Rightarrow> jsstring" where
  "to_DOMString (Some (JStr s)) = s"

definition editTodo :: "json \<Rightarrow> app \<Rightarrow> app" where
  "editTodo tid st =
     (case find_todo tid (todos st) of
        None \<Rightarrow> st
      | Some i \<Rightarrow>
          showModal (st\<lparr>editingIndex := Some (int i),
                        editInput := to_DOMString (get_prop (todos st ! i) (ascii ''text''))\<rparr>))"

text \<open>
  \<^verbatim>\<open>saveEdit\<close>. An index past the end reads \<^verbatim>\<open>undefined\<close>, the assignment
  to its \<^verbatim>\<open>text\<close> throws a TypeError, and the handler reports it.
\<close>

definition saveEdit :: "jsstring \<Rightarrow> bool \<Rightarrow> app \<Rightarrow> app" where
  "saveEdit isoNow setItemOk st =
     (let newText = trim (editInput st) in
      if newText = [] then st
      else
        (case editingIndex st of
           None \<Rightarrow> st
         | Some idx \<Rightarrow>
             if idx \<ge> 0 then
               (if nat idx < length (todos st) then
                  (let todo' = set_prop (ascii ''updatedAt'') (JStr isoNow)
                                 (set_prop (ascii ''text'') (JStr newText) (todos st ! nat idx));
                       st1 = st\<lparr>todos := (todos st)[nat idx := todo']\<rparr> in
                   case saveTodos setItemOk st1 of
                     Inr st2 \<Rightarrow>
                       showNotification (ascii ''Task updated successfully!'') (ascii ''success'')
                         (closeModal st2)
                   | Inl e \<Rightarrow>
                       showNotification (ascii ''Error updating task. Please try again.'')
                         (ascii ''error'') st1)
                else
                  showNotification (ascii ''Error updating task. Please try again.'')
                    (ascii ''error'') st)
             else st))"

text \<open>
  \<^verbatim>\<open>deleteTodo\<close>. \<open>confirmed\<close> is the answer to the \<^verbatim>\<open>confirm\<close> dialog,
  asked only when the todo is found.
\<close>

definition deleteTodo :: "json \<Rightarrow> bool \<Rightarrow> bool \<Rightarrow> app \<Rightarrow> app" where
  "deleteTodo tid confirmed setItemOk st =
     (case find_todo tid (todos st) of
        None \<Rightarrow> st
      | Some i \<Rightarrow>
          if confirmed then
            (let st1 = st\<lparr>todos := filter (\<lambda>t. \<not> strict_eq (get_prop t (ascii ''id'')) tid) (todos st)\<rparr> in
             case saveTodos setItemOk st1 of
               Inr st2 \<Rightarrow>
                 showNotification (ascii ''Task deleted successfully!'') (ascii ''success'') st2
             | Inl e \<Rightarrow>
                 showNotification (ascii ''Error deleting task. Please try again.'') (ascii ''error'') st1)
          else st)"

definition isCompleted :: "todo \<Rightarrow> bool" where
  "isCompleted t = truthy (get_prop t (ascii ''completed''))"

definition clearCompleted :: "bool \<Rightarrow> bool \<Rightarrow> app \<Rightarrow> app" where
  "clearCompleted confirmed setItemOk st =
     (let completedCount = length (filter isCompleted (todos st)) in
      if completedCount = 0 then
        showNotification (ascii ''No completed tasks to clear.'') (ascii ''info'') st
      else if confirmed then
        (let st1 = st\<lparr>todos := filter (\<lambda>t. \<not> isCompleted t) (todos st)\<rparr> in
         case saveTodos setItemOk st1 of
           Inr st2 \<Rightarrow>
             showNotification
               (toStringRadix 10 completedCount @ ascii '' completed task(s) cleared!'')
               (ascii ''success'') st2
         | Inl e \<Rightarrow>
             showNotification (ascii ''Error clearing completed tasks. Please try again.'')
               (ascii ''error'') st1)
      else st)"

section \<open>The view\<close>

definition getFilteredTodos :: "app \<Rightarrow> todo list" where
  "getFilteredTodos st =
     (if currentFilter st = ascii ''active'' then filter (\<lambda>t. \<not> isCompleted t) (todos st)
      else if currentFilter st = ascii ''completed'' then filter isCompleted (todos st)
      else todos st)"

section \<open>Values as the runtime holds them\<close>

text \<open>
  Not every property list is an object of the runtime. The keys of an object
  are distinct and enumerate in a fixed order: array indices first, ascending,
  then the other keys in creation order. A number is held in normal form: the
  mantissa of a number other than zero is not divisible by ten, and zero is
  \<open>JNum 0 0\<close>. \<open>js_value\<close> holds of the values built that way; they
  are the values \<^verbatim>\<open>JSON.parse\<close> returns.
\<close>

definition key_before :: "jsstring \<Rightarrow> jsstring \<Rightarrow> bool" where
  "key_before k k' =
     (case array_index k of
        None \<Rightarrow> array_index k' = None
      | Some i \<Rightarrow> (case array_index k' of None \<Rightarrow> True | Some j \<Rightarrow> i < j))"

definition keys_ordered :: "jsstring list \<Rightarrow> bool" where
  "keys_ordered ks \<longleftrightarrow> distinct ks \<and> sorted_wrt key_before ks"

definition normal_number :: "int \<Rightarrow> int \<Rightarrow> bool" where
  "normal_number m e \<longleftrightarrow> (if m = 0 then e = 0 else \<not> 10 dvd m)"

fun js_value :: "json \<Rightarrow> bool" where
  "js_value JNull = True"
| "js_value (JBool b) = True"
| "js_value (JNum m e) = normal_number m e"
| "js_value (JStr s) = True"
| "js_value (JArr xs) = (\<forall>x\<in>set xs. js_value x)"
| "js_value (JObj ps) = (keys_ordered (map fst ps) \<and> (\<forall>p\<in>set ps. js_value (snd p)))"

text \<open>
  Notions used in the proofs below: the code units \<open>quoteChars\<close> treats by
  its last four cases, the ones a serialised value can start with, the ones that
  can follow a value inside an array or an object, an input on which a run of
  digits stops, the decimal digits of a mantissa, an object under construction,
  and the three invariants of the parser's fuel.
\<close>

definition plain :: "16 word \<Rightarrow> bool" where
  "plain c \<longleftrightarrow> \<not> (c = 0x8 \<or> c = 0x9 \<or> c = 0xA \<or> c = 0xC \<or> c = 0xD \<or> c = 0x22 \<or> c = 0x5C)"

definition starts_value :: "16 word \<Rightarrow> bool" where
  "starts_value c \<longleftrightarrow>
     c = 0x5B \<or> c = 0x7B \<or> c = 0x22 \<or> c = 0x6E \<or> c = 0x74 \<or> c = 0x66 \<or> c = 0x2D \<or> isDigit c"

definition follows :: "jsstring \<Rightarrow> bool" where
  "follows rest \<longleftrightarrow> (case rest of [] \<Rightarrow> True | c # t \<Rightarrow> c = 0x2C \<or> c = 0x5D \<or> c = 0x7D)"

definition stop :: "jsstring \<Rightarrow> bool" where
  "stop rest \<longleftrightarrow> (case rest of [] \<Rightarrow> True | c # t \<Rightarrow> \<not> isDigit c)"

definition digit_text :: "jsstring \<Rightarrow> nat \<Rightarrow> bool" where
  "digit_text ds m \<longleftrightarrow>
     ds \<noteq> [] \<and> list_all isDigit ds \<and> hd ds \<noteq> 0x30 \<and>
     (\<forall>neg p z e'. mk_num neg (replicate p 0x30 @ ds @ replicate z 0x30) e' =
        JNum (if neg then - int m else int m) (e' + int z))"

definition obj_ok :: "(jsstring \<times> json) list \<Rightarrow> bool" where
  "obj_ok ps \<longleftrightarrow> keys_ordered (map fst ps) \<and> (\<forall>p\<in>set ps. js_value (snd p))"

definition shrinks :: "nat \<Rightarrow> bool" where
  "shrinks n \<longleftrightarrow>
     (\<forall>s v r. parse_value n s = POk v r \<longrightarrow> length r \<le> length s) \<and>
     (\<forall>acc s v r. parse_elements n acc s = POk v r \<longrightarrow> length r \<le> length s) \<and>
     (\<forall>acc s v r. parse_members n acc s = POk v r \<longrightarrow> length r \<le> length s)"

definition enough :: "nat \<Rightarrow> bool" where
  "enough n \<longleftrightarrow>
     (\<forall>s. 2 * length s + 1 \<le> n \<longrightarrow> parse_value n s \<noteq> POutOfFuel) \<and>
     (\<forall>acc s. 2 * length s + 2 \<le> n \<longrightarrow> parse_elements n acc s \<noteq> POutOfFuel) \<and>
     (\<forall>acc s. 2 * length s + 2 \<le> n \<longrightarrow> parse_members n acc s \<noteq> POutOfFuel)"

definition sound :: "nat \<Rightarrow> bool" where
  "sound n \<longleftrightarrow>
     (\<forall>s v r. parse_value n s = POk v r \<longrightarrow> js_value v) \<and>
     (\<forall>acc s v r. (\<forall>x\<in>set acc. js_value x) \<longrightarrow> parse_elements n acc s = POk v r \<longrightarrow> js_value v) \<and>
     (\<forall>acc s v r. obj_ok acc \<longrightarrow> parse_members n acc s = POk v r \<longrightarrow> js_value v)"

section \<open>The states the application reaches\<close>

text \<open>
  The constructor runs \<^verbatim>\<open>initializeApp\<close> on whatever the slot holds; from
  then on the user types into the two input fields and triggers the handlers,
  the browser answering each as it pleases. \<open>store_ok\<close> is the property of the
  list that all of this maintains: every todo passes the filter of
  \<^verbatim>\<open>loadTodos\<close> and is an object as the runtime holds it.
\<close>

definition store_ok :: "app \<Rightarrow> bool" where
  "store_ok st \<longleftrightarrow> (\<forall>t\<in>set (todos st). valid_todo t \<and> js_value (JObj t))"

inductive reachable :: "app \<Rightarrow> bool" where
  started: "reachable (initializeApp (constructed stored))"
| typed: "reachable st \<Longrightarrow> reachable (st\<lparr>todoInput := input\<rparr>)"
| typed_edit: "reachable st \<Longrightarrow> reachable (st\<lparr>editInput := input\<rparr>)"
| added: "reachable st \<Longrightarrow> reachable (handleAddTodo now random36 iso1 iso2 setItemOk st)"
| filtered: "reachable st \<Longrightarrow> reachable (handleFilterChange f st)"
| toggled: "reachable st \<Longrightarrow> reachable (toggleTodo tid isoNow setItemOk st)"
| editing: "reachable st \<Longrightarrow> reachable (editTodo tid st)"
| saved: "reachable st \<Longrightarrow> reachable (saveEdit isoNow setItemOk st)"
| closed: "reachable st \<Longrightarrow> reachable (closeModal st)"
| deleted: "reachable st \<Longrightarrow> reachable (deleteTodo tid confirmed setItemOk st)"
| cleared: "reachable st \<Longrightarrow> reachable (clearCompleted confirmed setItemOk st)"

section \<open>Sample data\<close>

text \<open>A list of two todos, one of them completed, with text waiting in both input fields.\<close>

definition sample_todo :: "string \<Rightarrow> string \<Rightarrow> bool \<Rightarrow> todo" where
  "sample_todo i t c =
     [(ascii ''id'', JStr (ascii i)), (ascii ''text'', JStr (ascii t)),
      (ascii ''completed'', JBool c),
      (ascii ''createdAt'', JStr (ascii ''2024-10-27T03:33:20.000Z'')),
      (ascii ''updatedAt'', JStr (ascii ''2024-10-27T03:33:20.000Z''))]"

definition sample_app :: app where
  "sample_app =
     (constructed None)
       \<lparr>todos := [sample_todo ''m2r1bz7k9x'' ''Buy milk'' False,
                  sample_todo ''m2r1bz7k4f'' ''Walk dog'' True],
        todoInput := ascii '' Feed cat '',
        editInput := ascii ''Buy oat milk'',
        editingIndex := Some 0\<rparr>"


lemmas sample_defs = sample_app_def sample_todo_def constructed_def get_prop_def ascii_def
  trim_def isWhiteSpace_def isCompleted_def

section \<open>Properties of objects and of the search by id\<close>

lemma map_of_set_prop: "map_of (set_prop k v ps) = (map_of ps)(k \<mapsto> v)"
  by (induction ps) (auto simp: fun_eq_iff)

lemma get_prop_set_prop:
  "get_prop (set_prop k v ps) k' = (if k' = k then Some v else get_prop ps k')"
  by (simp add: get_prop_def map_of_set_prop)

lemma find_todo_Some:
  "find_todo tid ts = Some i \<Longrightarrow>
     i < length ts \<and> strict_eq (get_prop (ts ! i) (ascii ''id'')) tid \<and>
     (\<forall>j<i. \<not> strict_eq (get_prop (ts ! j) (ascii ''id'')) tid)"
proof (induction ts arbitrary: i)
  case Nil
  then show ?case by simp
next
  case (Cons t ts)
  show ?case
  proof (cases "strict_eq (get_prop t (ascii ''id'')) tid")
    case True
    with Cons.prems show ?thesis by simp
  next
    case False
    with Cons.prems obtain k where k: "find_todo tid ts = Some k" "i = Suc k"
      by auto
    from Cons.IH[OF k(1)] False k(2) show ?thesis
      by (auto simp: nth_Cons less_Suc_eq_0_disj split: nat.splits)
  qed
qed




lemma isCompleted_bool: "get_prop t (ascii ''completed'') = Some (JBool b) \<Longrightarrow> isCompleted t = b"
  by (simp add: isCompleted_def)


section \<open>The fuel of JSON.parse never runs out\<close>

text \<open>
  Every parser returns a rest no longer than its input, and fuel of twice the
  length of the input, plus two, is never exhausted: \<open>JSON_parse\<close> returns
  \<open>None\<close> only for a text that is not JSON.
\<close>

lemma skip_ws_length: "length (skip_ws s) \<le> length s"
  by (simp add: skip_ws_def length_dropWhile_le)

lemma skip_ws_Cons_length: "skip_ws s = c # cs \<Longrightarrow> length cs < length s"
  using skip_ws_length[of s] by simp

lemma consChar_Some: "consChar c r = Some (str, rest) \<Longrightarrow> \<exists>str'. r = Some (str', rest)"
  by (auto simp: consChar_def split: option.splits)

lemma parse_string_chars_length:
  "parse_string_chars s = Some (str, r) \<Longrightarrow> length r < length s"
proof (induction "length s" arbitrary: s str r rule: less_induct)
  case less
  note IH = less.hyps
  show ?case
  proof (cases s)
    case Nil
    with less.prems show ?thesis by simp
  next
    case (Cons c cs)
    show ?thesis
    proof (cases "c = 0x22")
      case True
      with less.prems Cons show ?thesis by simp
    next
      case nq: False
      show ?thesis
      proof (cases "c = 0x5C")
        case bs: True
        from less.prems Cons nq bs obtain e es where es: "cs = e # es"
          by (cases cs) auto
        show ?thesis
        proof (cases "e = 0x75")
          case True
          from less.prems Cons nq bs es True obtain h1 h2 h3 h4 rest u
            where hs: "es = h1 # h2 # h3 # h4 # rest"
              and cc: "consChar u (parse_string_chars rest) = Some (str, r)"
            by (auto split: list.splits option.splits)
          from consChar_Some[OF cc] obtain str' where p: "parse_string_chars rest = Some (str', r)" ..
          have "length rest < length s" using Cons es hs by simp
          from IH[OF this p] Cons es hs show ?thesis by simp
        next
          case False
          from less.prems Cons nq bs es False obtain u
            where cc: "consChar u (parse_string_chars es) = Some (str, r)"
            by (auto split: option.splits)
          from consChar_Some[OF cc] obtain str' where p: "parse_string_chars es = Some (str', r)" ..
          have "length es < length s" using Cons es by simp
          from IH[OF this p] Cons es show ?thesis by simp
        qed
      next
        case nb: False
        show ?thesis
        proof (cases "c < 0x20")
          case True
          with less.prems Cons nq nb show ?thesis by simp
        next
          case False
          with less.prems Cons nq nb have cc: "consChar c (parse_string_chars cs) = Some (str, r)"
            by simp
          from consChar_Some[OF cc] obtain str' where p: "parse_string_chars cs = Some (str', r)" ..
          have "length cs < length s" using Cons by simp
          from IH[OF this p] Cons show ?thesis by simp
        qed
      qed
    qed
  qed
qed

lemma strip_prefix_length: "strip_prefix p s = Some r \<Longrightarrow> length r \<le> length s"
  by (auto simp: strip_prefix_def split: if_splits)

lemma parse_int_part_length: "parse_int_part s = Some (ip, r) \<Longrightarrow> length r \<le> length s"
  by (auto simp: parse_int_part_def length_dropWhile_le le_SucI split: list.splits if_splits)

lemma parse_frac_length: "parse_frac s = Some (fp, r) \<Longrightarrow> length r \<le> length s"
  by (auto simp: parse_frac_def length_dropWhile_le le_SucI split: list.splits if_splits)

lemma parse_exp_length: "parse_exp s = Some (ex, r) \<Longrightarrow> length r \<le> length s"
  by (auto simp: parse_exp_def Let_def le_SucI
      intro: order_trans[OF length_dropWhile_le] split: list.splits if_splits)

lemma parse_number_length: "parse_number s = Some (v, r) \<Longrightarrow> length r \<le> length s"
proof -
  assume a: "parse_number s = Some (v, r)"
  define s1 where "s1 = (case s of [] \<Rightarrow> [] | c # cs \<Rightarrow> if c = 0x2D then cs else s)"
  have l1: "length s1 \<le> length s" by (auto simp: s1_def split: list.splits)
  from a obtain ip s2 fp s3 ex where "parse_int_part s1 = Some (ip, s2)"
    "parse_frac s2 = Some (fp, s3)" "parse_exp s3 = Some (ex, r)"
    by (auto simp: parse_number_def Let_def s1_def split: option.splits)
  from parse_int_part_length[OF this(1)] parse_frac_length[OF this(2)] parse_exp_length[OF this(3)] l1
  show ?thesis by simp
qed

lemma shrinks_value:
  assumes "shrinks n"
  shows "parse_value (Suc n) s = POk v r \<Longrightarrow> length r \<le> length s"
proof -
  assume a: "parse_value (Suc n) s = POk v r"
  then obtain c cs where sk: "skip_ws s = c # cs"
    by (cases "skip_ws s") auto
  from skip_ws_Cons_length[OF sk] have l: "length cs < length s" .
  from skip_ws_length[of s] sk have l': "length (c # cs) \<le> length s" by simp
  from skip_ws_length[of cs] have l2: "length (skip_ws cs) \<le> length cs" .
  consider (obj) "c = 0x7B" | (arr) "c \<noteq> 0x7B" "c = 0x5B" | (str) "c \<noteq> 0x7B" "c \<noteq> 0x5B" "c = 0x22"
    | (other) "c \<noteq> 0x7B" "c \<noteq> 0x5B" "c \<noteq> 0x22" by blast
  then show ?thesis
  proof cases
    case obj
    with a sk obtain d r' where d: "skip_ws cs = d # r'"
      by (cases "skip_ws cs") auto
    show ?thesis
    proof (cases "d = 0x7D")
      case True
      with a sk obj d have "r = r'" by simp
      with l l2 d show ?thesis by simp
    next
      case False
      with a sk obj d have "parse_members n [] cs = POk v r" by simp
      with assms have "length r \<le> length cs" by (auto simp: shrinks_def)
      with l show ?thesis by simp
    qed
  next
    case arr
    with a sk obtain d r' where d: "skip_ws cs = d # r'"
      by (cases "skip_ws cs") auto
    show ?thesis
    proof (cases "d = 0x5D")
      case True
      with a sk arr d have "r = r'" by simp
      with l l2 d show ?thesis by simp
    next
      case False
      with a sk arr d have "parse_elements n [] cs = POk v r" by simp
      with assms have "length r \<le> length cs" by (auto simp: shrinks_def)
      with l show ?thesis by simp
    qed
  next
    case str
    with a sk obtain st where "parse_string_chars cs = Some (st, r)"
      by (auto split: option.splits)
    from parse_string_chars_length[OF this] l show ?thesis by simp
  next
    case other
    show ?thesis
    proof (cases "c = 0x74 \<or> c = 0x66 \<or> c = 0x6E")
      case True
      with other a sk obtain p where "strip_prefix p (c # cs) = Some r"
        by (auto split: option.splits if_splits)
      from strip_prefix_length[OF this] l' show ?thesis by simp
    next
      case False
      with other a sk obtain w where "parse_number (c # cs) = Some (w, r)"
        by (auto split: option.splits)
      from parse_number_length[OF this] l' show ?thesis by simp
    qed
  qed
qed

lemma shrinks_elements:
  assumes "shrinks n"
  shows "parse_elements (Suc n) acc s = POk v r \<Longrightarrow> length r \<le> length s"
proof -
  assume a: "parse_elements (Suc n) acc s = POk v r"
  then obtain w r1 where pv: "parse_value n s = POk w r1"
    by (cases "parse_value n s") auto
  with assms have l1: "length r1 \<le> length s" by (auto simp: shrinks_def)
  from a pv obtain c r2 where sk: "skip_ws r1 = c # r2"
    by (cases "skip_ws r1") auto
  from skip_ws_Cons_length[OF sk] l1 have l2: "length r2 < length s" by simp
  show ?thesis
  proof (cases "c = 0x2C")
    case True
    with a pv sk have "parse_elements n (acc @ [w]) r2 = POk v r" by simp
    with assms have "length r \<le> length r2" by (auto simp: shrinks_def)
    with l2 show ?thesis by simp
  next
    case False
    with a pv sk have "r = r2" by (auto split: if_splits)
    with l2 show ?thesis by simp
  qed
qed

lemma shrinks_members:
  assumes "shrinks n"
  shows "parse_members (Suc n) acc s = POk v r \<Longrightarrow> length r \<le> length s"
proof -
  assume a: "parse_members (Suc n) acc s = POk v r"
  then obtain q s1 where sk: "skip_ws s = q # s1"
    by (cases "skip_ws s") auto
  from skip_ws_Cons_length[OF sk] have l0: "length s1 < length s" .
  from a sk have q: "q = 0x22" by (auto split: if_splits)
  from a sk q obtain k s2 where ps: "parse_string_chars s1 = Some (k, s2)"
    by (cases "parse_string_chars s1") auto
  from parse_string_chars_length[OF ps] l0 have l1: "length s2 < length s" by simp
  from a sk q ps obtain c s3 where sk2: "skip_ws s2 = c # s3"
    by (cases "skip_ws s2") auto
  from skip_ws_Cons_length[OF sk2] l1 have l2: "length s3 < length s" by simp
  from a sk q ps sk2 have c: "c = 0x3A" by (auto split: if_splits)
  from a sk q ps sk2 c obtain w r1 where pv: "parse_value n s3 = POk w r1"
    by (cases "parse_value n s3") auto
  with assms have "length r1 \<le> length s3" by (auto simp: shrinks_def)
  with l2 have l3: "length r1 < length s" by simp
  from a sk q ps sk2 c pv obtain d r2 where sk3: "skip_ws r1 = d # r2"
    by (cases "skip_ws r1") auto
  from skip_ws_Cons_length[OF sk3] l3 have l4: "length r2 < length s" by simp
  show ?thesis
  proof (cases "d = 0x2C")
    case True
    with a sk q ps sk2 c pv sk3 have "parse_members n (define_prop acc (k, w)) r2 = POk v r" by simp
    with assms have "length r \<le> length r2" by (auto simp: shrinks_def)
    with l4 show ?thesis by simp
  next
    case False
    with a sk q ps sk2 c pv sk3 have "r = r2" by (auto split: if_splits)
    with l4 show ?thesis by simp
  qed
qed

lemma shrinks_all: "shrinks n"
proof (induction n)
  case 0
  show ?case by (simp add: shrinks_def)
next
  case (Suc n)
  show ?case
    unfolding shrinks_def
    using shrinks_value[OF Suc] shrinks_elements[OF Suc] shrinks_members[OF Suc]
    by blast
qed

lemma parse_value_length: "parse_value n s = POk v r \<Longrightarrow> length r \<le> length s"
  using shrinks_all[of n] by (auto simp: shrinks_def)

lemma enough_value:
  assumes "enough n" and b: "2 * length s + 1 \<le> Suc n"
  shows "parse_value (Suc n) s \<noteq> POutOfFuel"
proof (cases "skip_ws s")
  case Nil
  then show ?thesis by simp
next
  case (Cons c cs)
  from skip_ws_Cons_length[OF Cons] b have l: "2 * length cs + 2 \<le> n" by simp
  with assms(1) have e: "parse_elements n [] cs \<noteq> POutOfFuel" "parse_members n [] cs \<noteq> POutOfFuel"
    by (auto simp: enough_def)
  with Cons show ?thesis
    by (auto split: list.splits option.splits)
qed

lemma enough_elements:
  assumes "enough n" and b: "2 * length s + 2 \<le> Suc n"
  shows "parse_elements (Suc n) acc s \<noteq> POutOfFuel"
proof (cases "parse_value n s")
  case (POk w r1)
  from parse_value_length[OF POk] have l1: "length r1 \<le> length s" .
  show ?thesis
  proof (cases "skip_ws r1")
    case Nil
    with POk show ?thesis by simp
  next
    case (Cons c r2)
    from skip_ws_Cons_length[OF Cons] l1 b have "2 * length r2 + 2 \<le> n" by simp
    with assms(1) have "parse_elements n (acc @ [w]) r2 \<noteq> POutOfFuel"
      by (auto simp: enough_def)
    with POk Cons show ?thesis by simp
  qed
next
  case PSyntaxError
  then show ?thesis by simp
next
  case POutOfFuel
  moreover from b have "2 * length s + 1 \<le> n" by simp
  ultimately show ?thesis using assms(1) by (auto simp: enough_def)
qed

lemma enough_members:
  assumes "enough n" and b: "2 * length s + 2 \<le> Suc n"
  shows "parse_members (Suc n) acc s \<noteq> POutOfFuel"
proof (cases "skip_ws s")
  case Nil
  then show ?thesis by simp
next
  case sk: (Cons q s1)
  from skip_ws_Cons_length[OF sk] have l0: "length s1 < length s" .
  show ?thesis
  proof (cases "parse_string_chars s1")
    case None
    with sk show ?thesis by simp
  next
    case (Some ks)
    obtain k s2 where ks: "ks = (k, s2)" by (cases ks)
    from parse_string_chars_length[OF Some[unfolded ks]] l0 have l1: "length s2 < length s" by simp
    show ?thesis
    proof (cases "skip_ws s2")
      case Nil
      with sk Some ks show ?thesis by simp
    next
      case sk2: (Cons c s3)
      from skip_ws_Cons_length[OF sk2] l1 have l2: "length s3 < length s" by simp
      show ?thesis
      proof (cases "parse_value n s3")
        case (POk w r1)
        from parse_value_length[OF POk] l2 have l3: "length r1 < length s" by simp
        show ?thesis
        proof (cases "skip_ws r1")
          case Nil
          with sk Some ks sk2 POk show ?thesis by simp
        next
          case sk3: (Cons d r2)
          from skip_ws_Cons_length[OF sk3] l3 b have "2 * length r2 + 2 \<le> n" by simp
          with assms(1) have "parse_members n (define_prop acc (k, w)) r2 \<noteq> POutOfFuel"
            by (auto simp: enough_def)
          with sk Some ks sk2 POk sk3 show ?thesis by simp
        qed
      next
        case PSyntaxError
        with sk Some ks sk2 show ?thesis by simp
      next
        case POutOfFuel
        moreover from b l2 have "2 * length s3 + 1 \<le> n" by simp
        ultimately show ?thesis using assms(1) by (auto simp: enough_def)
      qed
    qed
  qed
qed

lemma enough_all: "enough n"
proof (induction n)
  case 0
  show ?case by (simp add: enough_def)
next
  case (Suc n)
  show ?case
    unfolding enough_def
    using enough_value[OF Suc] enough_elements[OF Suc] enough_members[OF Suc]
    by blast
qed

lemma JSON_parse_fuel: "parse_value (2 * length s + 2) s \<noteq> POutOfFuel"
  using enough_all[of "2 * length s + 2"] by (simp add: enough_def)

lemma JSON_parse_None_iff:
  "JSON_parse s = None \<longleftrightarrow>
     parse_value (2 * length s + 2) s = PSyntaxError \<or>
     (\<exists>v r. parse_value (2 * length s + 2) s = POk v r \<and> skip_ws r \<noteq> [])"
  using JSON_parse_fuel[of s]
  by (cases "parse_value (2 * length s + 2) s") (auto simp: JSON_parse_def)

section \<open>Numbers read back\<close>

lemma digits_small: "n < 10 \<Longrightarrow> digits 10 n = [n]"
  by (subst digits.simps) simp

lemma digits_big: "\<not> n < 10 \<Longrightarrow> digits 10 n = digits 10 (n div 10) @ [n mod 10]"
  by (subst digits.simps) simp

lemma digits_props:
  "digits 10 n \<noteq> [] \<and> (\<forall>d\<in>set (digits 10 n). d < 10) \<and>
   foldl (\<lambda>a d. 10 * a + d) 0 (digits 10 n) = n \<and>
   (0 < n \<longrightarrow> hd (digits 10 n) \<noteq> 0) \<and> last (digits 10 n) = n mod 10"
proof (induction n rule: less_induct)
  case (less n)
  show ?case
  proof (cases "n < 10")
    case True
    then show ?thesis by (simp add: digits_small)
  next
    case False
    define q where "q = n div 10"
    define r where "r = n mod 10"
    have n: "n = 10 * q + r" and r: "r < 10" and q: "q < n" "0 < q"
      using False by (simp_all add: q_def r_def)
    have d: "digits 10 n = digits 10 q @ [r]"
      unfolding q_def r_def by (rule digits_big[OF False])
    from less[OF q(1)] q(2)
    have ne: "digits 10 q \<noteq> []" and lt: "\<forall>d\<in>set (digits 10 q). d < 10"
      and v: "foldl (\<lambda>a d. 10 * a + d) 0 (digits 10 q) = q"
      and h: "hd (digits 10 q) \<noteq> 0"
      by blast+
    have 1: "digits 10 n \<noteq> []" by (simp only: d) simp
    have 2: "\<forall>d\<in>set (digits 10 n). d < 10" using lt r by (simp only: d) simp
    have "foldl (\<lambda>a d. 10 * a + d) 0 (digits 10 q @ [r]) = 10 * q + r"
      by (simp add: v)
    then have 3: "foldl (\<lambda>a d. 10 * a + d) 0 (digits 10 n) = n"
      by (simp only: d n[symmetric])
    have 4: "hd (digits 10 n) \<noteq> 0" using ne h by (simp only: d) simp
    have 5: "last (digits 10 n) = n mod 10" by (simp only: d r_def) simp
    from 1 2 3 4 5 show ?thesis by blast
  qed
qed

lemma unat_digitChar: "d < 10 \<Longrightarrow> unat (digitChar d) = 48 + d"
proof -
  assume d: "d < 10"
  have "unat (of_nat (48 + d) :: 16 word) = (48 + d) mod 2 ^ LENGTH(16)"
    by (rule unat_of_nat)
  with d show ?thesis by (simp only: digitChar_def if_True) simp
qed

lemma isDigit_digitChar: "d < 10 \<Longrightarrow> isDigit (digitChar d)"
  using unat_digitChar[of d] by (simp add: isDigit_def word_le_nat_alt)

lemma digitChar_zero: "d < 10 \<Longrightarrow> digitChar d = 0x30 \<longleftrightarrow> d = 0"
proof -
  assume d: "d < 10"
  have "digitChar d = 0x30 \<longleftrightarrow> unat (digitChar d) = unat (0x30 :: 16 word)"
    by (simp only: word_unat_eq_iff)
  with unat_digitChar[OF d] show ?thesis by simp
qed

lemma nat_of_digits_map:
  "\<forall>d\<in>set xs. d < 10 \<Longrightarrow>
     foldl (\<lambda>a c. 10 * a + (unat c - 48)) a0 (map digitChar xs) = foldl (\<lambda>a d. 10 * a + d) a0 xs"
  by (induction xs arbitrary: a0) (simp_all add: unat_digitChar)

lemma decimal_props:
  "toStringRadix 10 n \<noteq> [] \<and> list_all isDigit (toStringRadix 10 n) \<and>
   nat_of_digits (toStringRadix 10 n) = n \<and>
   (0 < n \<longrightarrow> hd (toStringRadix 10 n) \<noteq> 0x30) \<and>
   (\<not> 10 dvd n \<longrightarrow> last (toStringRadix 10 n) \<noteq> 0x30)"
proof -
  note p = digits_props[of n]
  from p have ne: "digits 10 n \<noteq> []" and lt: "\<forall>d\<in>set (digits 10 n). d < 10" by simp_all
  have 1: "list_all isDigit (toStringRadix 10 n)"
    using lt by (simp add: toStringRadix_def list_all_iff isDigit_digitChar)
  have 2: "nat_of_digits (toStringRadix 10 n) = n"
    using nat_of_digits_map[OF lt, of 0] p by (simp add: nat_of_digits_def toStringRadix_def)
  have 3: "hd (toStringRadix 10 n) \<noteq> 0x30" if "0 < n"
  proof -
    from ne lt have "hd (digits 10 n) < 10" by (cases "digits 10 n") auto
    with digitChar_zero[of "hd (digits 10 n)"] p that ne show ?thesis
      by (simp add: toStringRadix_def hd_map)
  qed
  have 4: "last (toStringRadix 10 n) \<noteq> 0x30" if "\<not> 10 dvd n"
  proof -
    from ne lt have "last (digits 10 n) < 10" by (metis last_in_set)
    with digitChar_zero[of "last (digits 10 n)"] p that ne show ?thesis
      by (simp add: toStringRadix_def last_map dvd_eq_mod_eq_0)
  qed
  from ne 1 2 3 4 show ?thesis by (simp add: toStringRadix_def)
qed

lemma follows_stop: "follows rest \<Longrightarrow> stop rest"
  by (auto simp: follows_def stop_def isDigit_def split: list.splits)

lemma digits_then_stop:
  "list_all isDigit ds \<Longrightarrow> stop rest \<Longrightarrow>
     takeWhile isDigit (ds @ rest) = ds \<and> dropWhile isDigit (ds @ rest) = rest"
  by (induction ds) (auto simp: stop_def split: list.splits)

lemma stop_point: "stop (0x2E # t)" and stop_e: "stop (0x65 # t)"
  by (simp_all add: stop_def isDigit_def)

lemma parse_frac_none: "follows rest \<Longrightarrow> parse_frac rest = Some ([], rest)"
  by (auto simp: parse_frac_def follows_def split: list.splits)

lemma parse_exp_none: "follows rest \<Longrightarrow> parse_exp rest = Some (0, rest)"
  by (auto simp: parse_exp_def follows_def split: list.splits)

lemma parse_frac_some:
  "list_all isDigit fs \<Longrightarrow> fs \<noteq> [] \<Longrightarrow> stop rest \<Longrightarrow>
     parse_frac (0x2E # fs @ rest) = Some (fs, rest)"
  using digits_then_stop[of fs rest] by (simp add: parse_frac_def)

lemma parse_frac_skip: "parse_frac (0x65 # t) = Some ([], 0x65 # t)"
  by (simp add: parse_frac_def)

lemma parse_exp_some:
  assumes "follows rest" and "sg = 0x2D \<or> sg = 0x2B"
  shows "parse_exp (0x65 # sg # toStringRadix 10 a @ rest)
           = Some (if sg = 0x2D then - int a else int a, rest)"
proof -
  note p = decimal_props[of a]
  from p follows_stop[OF assms(1)] digits_then_stop[of "toStringRadix 10 a" rest]
  have tw: "takeWhile isDigit (toStringRadix 10 a @ rest) = toStringRadix 10 a"
    and dw: "dropWhile isDigit (toStringRadix 10 a @ rest) = rest"
    by simp_all
  from p have ne: "toStringRadix 10 a \<noteq> []" and v: "nat_of_digits (toStringRadix 10 a) = a"
    by simp_all
  from assms(2) show ?thesis
    by (auto simp: parse_exp_def Let_def tw dw ne v)
qed

lemma parse_int_nonzero:
  "ds \<noteq> [] \<Longrightarrow> hd ds \<noteq> 0x30 \<Longrightarrow> list_all isDigit ds \<Longrightarrow> stop rest \<Longrightarrow>
     parse_int_part (ds @ rest) = Some (ds, rest)"
  using digits_then_stop[of "tl ds" rest]
  by (cases ds) (simp_all add: parse_int_part_def)

lemma parse_int_zero: "parse_int_part (0x30 # rest) = Some ([0x30], rest)"
  by (simp add: parse_int_part_def)

lemma nat_of_digits_zeros: "nat_of_digits (replicate p 0x30 @ ds) = nat_of_digits ds"
proof -
  have "foldl (\<lambda>a c. 10 * a + (unat c - 48)) 0 (replicate p (0x30 :: 16 word)) = 0"
    by (induction p) simp_all
  then show ?thesis by (simp add: nat_of_digits_def)
qed

lemma strip_trailing:
  fixes ds :: jsstring
  assumes ne: "ds \<noteq> []" and l: "last ds \<noteq> 0x30"
  shows "rev (dropWhile (\<lambda>c. c = 0x30) (rev (pre @ ds @ replicate z 0x30))) = pre @ ds"
proof -
  from ne obtain y ys where r: "rev ds = y # ys" by (cases "rev ds") auto
  with l ne have y: "y \<noteq> 0x30" by (metis hd_rev list.sel(1))
  have "dropWhile (\<lambda>c. c = 0x30) (replicate z (0x30 :: 16 word) @ rev ds @ rev pre) =
      dropWhile (\<lambda>c. c = 0x30) (rev ds @ rev pre)"
    by (rule dropWhile_append2) simp
  also have "\<dots> = rev ds @ rev pre" using r y by simp
  finally show ?thesis by simp
qed

lemma list_all_take_drop:
  "list_all P xs \<Longrightarrow> list_all P (take n xs) \<and> list_all P (drop n xs)"
  by (auto simp: list_all_iff dest: in_set_takeD in_set_dropD)

lemma zeros_digits: "list_all isDigit (replicate z 0x30)"
  by (induction z) (simp_all add: isDigit_def)

lemma mk_num_digits:
  assumes "0 < m" and "\<not> 10 dvd m"
  shows "mk_num neg (replicate p 0x30 @ toStringRadix 10 m @ replicate z 0x30) e' =
           JNum (if neg then - int m else int m) (e' + int z)"
proof -
  note d = decimal_props[of m]
  from d assms have ne: "toStringRadix 10 m \<noteq> []" and l: "last (toStringRadix 10 m) \<noteq> 0x30"
    and v: "nat_of_digits (toStringRadix 10 m) = m" by simp_all
  have s: "rev (dropWhile (\<lambda>c. c = 0x30)
      (rev (replicate p 0x30 @ toStringRadix 10 m @ replicate z 0x30))) =
      replicate p 0x30 @ toStringRadix 10 m"
    by (rule strip_trailing[OF ne l])
  show ?thesis
    unfolding mk_num_def Let_def s nat_of_digits_zeros v
    using assms(1) by simp
qed

lemma parse_number_steps:
  assumes "parse_int_part s1 = Some (ip, s2)" and "parse_frac s2 = Some (fp, s3)"
    and "parse_exp s3 = Some (ex, s4)"
  shows "parse_number s1 = Some (mk_num False (ip @ fp) (ex - int (length fp)), s4)"
    and "parse_number (0x2D # s1) = Some (mk_num True (ip @ fp) (ex - int (length fp)), s4)"
proof -
  from assms(1) obtain c cs where s1: "s1 = c # cs" and c: "c = 0x30 \<or> isDigit c"
    by (cases s1) (auto simp: parse_int_part_def split: if_splits)
  then have "c \<noteq> 0x2D" by (auto simp: isDigit_def)
  with s1 assms show "parse_number s1 = Some (mk_num False (ip @ fp) (ex - int (length fp)), s4)"
    by (simp add: parse_number_def)
  from assms show "parse_number (0x2D # s1) = Some (mk_num True (ip @ fp) (ex - int (length fp)), s4)"
    by (simp add: parse_number_def)
qed

lemma digit_text_decimal: "0 < m \<Longrightarrow> \<not> 10 dvd m \<Longrightarrow> digit_text (toStringRadix 10 m) m"
  using decimal_props[of m] mk_num_digits[of m] by (simp add: digit_text_def)

lemma parsed_both:
  assumes "parse_int_part s1 = Some (ip, s2)" and "parse_frac s2 = Some (fp, s3)"
    and "parse_exp s3 = Some (ex, s4)"
    and "\<And>neg. mk_num neg (ip @ fp) (ex - int (length fp)) = JNum (if neg then - int m else int m) e"
  shows "parse_number s1 = Some (JNum (int m) e, s4) \<and>
         parse_number (0x2D # s1) = Some (JNum (- int m) e, s4)"
  using parse_number_steps[OF assms(1-3)] assms(4)[of False] assms(4)[of True]
  by (simp only: if_True if_False)

lemma plain_integer_text:
  assumes "digit_text ds m" and f: "follows rest"
  shows "parse_number ((ds @ replicate z 0x30) @ rest) = Some (JNum (int m) (int z), rest) \<and>
         parse_number (0x2D # (ds @ replicate z 0x30) @ rest) = Some (JNum (- int m) (int z), rest)"
proof (rule parsed_both)
  from assms(1) have ne: "ds \<noteq> []" and dig: "list_all isDigit ds" and hd0: "hd ds \<noteq> 0x30"
    by (simp_all add: digit_text_def)
  have "list_all isDigit (ds @ replicate z 0x30)" using dig zeros_digits by simp
  moreover have "hd (ds @ replicate z 0x30) \<noteq> 0x30" using ne hd0 by simp
  ultimately show "parse_int_part ((ds @ replicate z 0x30) @ rest) = Some (ds @ replicate z 0x30, rest)"
    using ne follows_stop[OF f] by (intro parse_int_nonzero) simp_all
  show "parse_frac rest = Some ([], rest)" by (rule parse_frac_none[OF f])
  show "parse_exp rest = Some (0, rest)" by (rule parse_exp_none[OF f])
  fix neg
  from assms(1) have "mk_num neg (replicate 0 0x30 @ ds @ replicate z 0x30) 0 =
      JNum (if neg then - int m else int m) (0 + int z)"
    unfolding digit_text_def by blast
  then show "mk_num neg ((ds @ replicate z 0x30) @ []) (0 - int (length ([] :: jsstring))) =
      JNum (if neg then - int m else int m) (int z)"
    by simp
qed

lemma point_inside_text:
  assumes "digit_text ds m" and f: "follows rest" and j: "0 < j" "j < length ds"
  shows "parse_number ((take j ds @ 0x2E # drop j ds) @ rest) =
           Some (JNum (int m) (int j - int (length ds)), rest) \<and>
         parse_number (0x2D # (take j ds @ 0x2E # drop j ds) @ rest) =
           Some (JNum (- int m) (int j - int (length ds)), rest)"
proof (rule parsed_both)
  from assms(1) have ne: "ds \<noteq> []" and dig: "list_all isDigit ds" and hd0: "hd ds \<noteq> 0x30"
    by (simp_all add: digit_text_def)
  from list_all_take_drop[OF dig, of j]
  have dt: "list_all isDigit (take j ds)" and dd: "list_all isDigit (drop j ds)" by simp_all
  have tne: "take j ds \<noteq> []" "drop j ds \<noteq> []" using j ne by simp_all
  have "hd (take j ds) \<noteq> 0x30" using j hd0 by (simp add: hd_take)
  with dt tne have "parse_int_part (take j ds @ 0x2E # drop j ds @ rest) =
      Some (take j ds, 0x2E # drop j ds @ rest)"
    by (intro parse_int_nonzero) (simp_all add: stop_point)
  then show "parse_int_part ((take j ds @ 0x2E # drop j ds) @ rest) =
      Some (take j ds, 0x2E # drop j ds @ rest)"
    by simp
  show "parse_frac (0x2E # drop j ds @ rest) = Some (drop j ds, rest)"
    using dd tne follows_stop[OF f] by (intro parse_frac_some) simp_all
  show "parse_exp rest = Some (0, rest)" by (rule parse_exp_none[OF f])
  fix neg
  from assms(1) have "mk_num neg (replicate 0 0x30 @ ds @ replicate 0 0x30) (0 - int (length (drop j ds))) =
      JNum (if neg then - int m else int m) (0 - int (length (drop j ds)) + int 0)"
    unfolding digit_text_def by blast
  then show "mk_num neg (take j ds @ drop j ds) (0 - int (length (drop j ds))) =
      JNum (if neg then - int m else int m) (int j - int (length ds))"
    using j by simp
qed

lemma small_fraction_text:
  assumes "digit_text ds m" and f: "follows rest"
  shows "parse_number ((0x30 # 0x2E # replicate p 0x30 @ ds) @ rest) =
           Some (JNum (int m) (- int p - int (length ds)), rest) \<and>
         parse_number (0x2D # (0x30 # 0x2E # replicate p 0x30 @ ds) @ rest) =
           Some (JNum (- int m) (- int p - int (length ds)), rest)"
proof (rule parsed_both)
  from assms(1) have ne: "ds \<noteq> []" and dig: "list_all isDigit ds"
    by (simp_all add: digit_text_def)
  have "parse_int_part (0x30 # 0x2E # replicate p 0x30 @ ds @ rest) =
      Some ([0x30], 0x2E # replicate p 0x30 @ ds @ rest)"
    by (rule parse_int_zero)
  then show "parse_int_part ((0x30 # 0x2E # replicate p 0x30 @ ds) @ rest) =
      Some ([0x30], 0x2E # (replicate p 0x30 @ ds) @ rest)"
    by simp
  have "list_all isDigit (replicate p 0x30 @ ds)" using dig zeros_digits by simp
  then show "parse_frac (0x2E # (replicate p 0x30 @ ds) @ rest) = Some (replicate p 0x30 @ ds, rest)"
    using ne follows_stop[OF f] by (intro parse_frac_some) simp_all
  show "parse_exp rest = Some (0, rest)" by (rule parse_exp_none[OF f])
  fix neg
  from assms(1) have "mk_num neg (replicate (Suc p) 0x30 @ ds @ replicate 0 0x30)
      (0 - int (length (replicate p (0x30 :: 16 word) @ ds))) =
      JNum (if neg then - int m else int m) (0 - int (length (replicate p (0x30 :: 16 word) @ ds)) + int 0)"
    unfolding digit_text_def by blast
  then show "mk_num neg ([0x30] @ replicate p 0x30 @ ds)
      (0 - int (length (replicate p (0x30 :: 16 word) @ ds))) =
      JNum (if neg then - int m else int m) (- int p - int (length ds))"
    by simp
qed

lemma exponent_text:
  assumes "digit_text ds m" and f: "follows rest" and sg: "sg = 0x2D \<or> sg = 0x2B"
    and x: "x = (if sg = 0x2D then - int a else int a)"
  shows "length ds = 1 \<Longrightarrow>
           parse_number ((ds @ 0x65 # sg # toStringRadix 10 a) @ rest) = Some (JNum (int m) x, rest) \<and>
           parse_number (0x2D # (ds @ 0x65 # sg # toStringRadix 10 a) @ rest) = Some (JNum (- int m) x, rest)"
    and "1 < length ds \<Longrightarrow>
           parse_number ((take 1 ds @ 0x2E # drop 1 ds @ 0x65 # sg # toStringRadix 10 a) @ rest) =
             Some (JNum (int m) (x + 1 - int (length ds)), rest) \<and>
           parse_number (0x2D # (take 1 ds @ 0x2E # drop 1 ds @ 0x65 # sg # toStringRadix 10 a) @ rest) =
             Some (JNum (- int m) (x + 1 - int (length ds)), rest)"
proof -
  from assms(1) have ne: "ds \<noteq> []" and dig: "list_all isDigit ds" and hd0: "hd ds \<noteq> 0x30"
    by (simp_all add: digit_text_def)
  have pe: "parse_exp (0x65 # sg # toStringRadix 10 a @ rest) = Some (x, rest)"
    unfolding x by (rule parse_exp_some[OF f sg])
  from assms(1) have mk: "\<And>neg e'. mk_num neg (replicate 0 0x30 @ ds @ replicate 0 0x30) e' =
      JNum (if neg then - int m else int m) (e' + int 0)"
    unfolding digit_text_def by blast
  show "parse_number ((ds @ 0x65 # sg # toStringRadix 10 a) @ rest) = Some (JNum (int m) x, rest) \<and>
        parse_number (0x2D # (ds @ 0x65 # sg # toStringRadix 10 a) @ rest) = Some (JNum (- int m) x, rest)"
    if "length ds = 1"
  proof (rule parsed_both)
    have "parse_int_part (ds @ 0x65 # sg # toStringRadix 10 a @ rest) =
        Some (ds, 0x65 # sg # toStringRadix 10 a @ rest)"
      using ne hd0 dig by (intro parse_int_nonzero) (simp_all add: stop_e)
    then show "parse_int_part ((ds @ 0x65 # sg # toStringRadix 10 a) @ rest) =
        Some (ds, 0x65 # sg # toStringRadix 10 a @ rest)"
      by simp
    show "parse_frac (0x65 # sg # toStringRadix 10 a @ rest) = Some ([], 0x65 # sg # toStringRadix 10 a @ rest)"
      by (rule parse_frac_skip)
    show "parse_exp (0x65 # sg # toStringRadix 10 a @ rest) = Some (x, rest)" by (rule pe)
    fix neg
    from mk[of neg x]
    show "mk_num neg (ds @ []) (x - int (length ([] :: jsstring))) = JNum (if neg then - int m else int m) x"
      by simp
  qed
  show "parse_number ((take 1 ds @ 0x2E # drop 1 ds @ 0x65 # sg # toStringRadix 10 a) @ rest) =
             Some (JNum (int m) (x + 1 - int (length ds)), rest) \<and>
        parse_number (0x2D # (take 1 ds @ 0x2E # drop 1 ds @ 0x65 # sg # toStringRadix 10 a) @ rest) =
             Some (JNum (- int m) (x + 1 - int (length ds)), rest)"
    if k2: "1 < length ds"
  proof (rule parsed_both)
    from list_all_take_drop[OF dig, of 1]
    have dt: "list_all isDigit (take 1 ds)" and dd: "list_all isDigit (drop 1 ds)" by simp_all
    have tne: "take 1 ds \<noteq> []" "drop 1 ds \<noteq> []" using k2 ne by simp_all
    have "hd (take 1 ds) \<noteq> 0x30" using hd0 by (simp add: hd_take)
    with dt tne have "parse_int_part (take 1 ds @ 0x2E # drop 1 ds @ 0x65 # sg # toStringRadix 10 a @ rest) =
        Some (take 1 ds, 0x2E # drop 1 ds @ 0x65 # sg # toStringRadix 10 a @ rest)"
      by (intro parse_int_nonzero) (simp_all add: stop_point)
    then show "parse_int_part ((take 1 ds @ 0x2E # drop 1 ds @ 0x65 # sg # toStringRadix 10 a) @ rest) =
        Some (take 1 ds, 0x2E # drop 1 ds @ 0x65 # sg # toStringRadix 10 a @ rest)"
      by simp
    show "parse_frac (0x2E # drop 1 ds @ 0x65 # sg # toStringRadix 10 a @ rest) =
        Some (drop 1 ds, 0x65 # sg # toStringRadix 10 a @ rest)"
      using dd tne by (intro parse_frac_some) (simp_all add: stop_e)
    show "parse_exp (0x65 # sg # toStringRadix 10 a @ rest) = Some (x, rest)" by (rule pe)
    fix neg
    from mk[of neg "x - int (length (drop 1 ds))"] k2
    show "mk_num neg (take 1 ds @ drop 1 ds) (x - int (length (drop 1 ds))) =
        JNum (if neg then - int m else int m) (x + 1 - int (length ds))"
      by simp
  qed
qed

lemma positive_both:
  assumes m: "0 < m" "\<not> 10 dvd m" and f: "follows rest"
  shows "parse_number (positiveToString m e @ rest) = Some (JNum (int m) e, rest) \<and>
         parse_number (0x2D # positiveToString m e @ rest) = Some (JNum (- int m) e, rest)"
proof -
  define ds where "ds = toStringRadix 10 m"
  define k where "k = int (length ds)"
  define n where "n = k + e"
  define X where "X = (if n - 1 < 0 then [0x2D] else [0x2B]) @ toStringRadix 10 (nat \<bar>n - 1\<bar>)"
  have T0: "positiveToString m e =
     (if k \<le> n \<and> n \<le> 21 then ds @ replicate (nat (n - k)) 0x30
      else if 0 < n \<and> n \<le> 21 then take (nat n) ds @ [0x2E] @ drop (nat n) ds
      else if - 6 < n \<and> n \<le> 0 then [0x30, 0x2E] @ replicate (nat (- n)) 0x30 @ ds
      else if k = 1 then ds @ [0x65] @ X
      else take 1 ds @ [0x2E] @ drop 1 ds @ [0x65] @ X)"
    unfolding positiveToString_def Let_def ds_def k_def n_def X_def by (rule refl)
  have dt: "digit_text ds m" unfolding ds_def by (rule digit_text_decimal[OF m])
  then have "ds \<noteq> []" by (simp add: digit_text_def)
  then have k1: "1 \<le> k" by (cases ds) (simp_all add: k_def)
  have e: "e = n - k" by (simp add: n_def)
  consider (A) "k \<le> n" "n \<le> 21"
    | (B) "\<not> (k \<le> n \<and> n \<le> 21)" "0 < n" "n \<le> 21"
    | (C) "\<not> (k \<le> n \<and> n \<le> 21)" "\<not> (0 < n \<and> n \<le> 21)" "- 6 < n" "n \<le> 0"
    | (D) "\<not> (k \<le> n \<and> n \<le> 21)" "\<not> (0 < n \<and> n \<le> 21)" "\<not> (- 6 < n \<and> n \<le> 0)"
    by blast
  then show ?thesis
  proof cases
    case A
    have T: "positiveToString m e = ds @ replicate (nat (n - k)) 0x30"
      unfolding T0 using A by simp
    have "int (nat (n - k)) = e" using A by (simp add: e)
    with plain_integer_text[OF dt f, of "nat (n - k)"] show ?thesis
      unfolding T by simp
  next
    case B
    then have nk: "n < k" by simp
    have T: "positiveToString m e = take (nat n) ds @ 0x2E # drop (nat n) ds"
      unfolding T0 using B by simp
    have j: "0 < nat n" "nat n < length ds" using B nk by (simp_all add: k_def)
    have "int (nat n) - int (length ds) = e" using B by (simp add: e k_def)
    with point_inside_text[OF dt f j] show ?thesis
      unfolding T by simp
  next
    case C
    have T: "positiveToString m e = 0x30 # 0x2E # replicate (nat (- n)) 0x30 @ ds"
      unfolding T0 using C by simp
    have "- int (nat (- n)) - int (length ds) = e" using C by (simp add: e k_def)
    with small_fraction_text[OF dt f, of "nat (- n)"] show ?thesis
      unfolding T by simp
  next
    case D
    define sg :: "16 word" where "sg = (if n - 1 < 0 then 0x2D else 0x2B)"
    define a where "a = nat \<bar>n - 1\<bar>"
    have sg: "sg = 0x2D \<or> sg = 0x2B" by (simp add: sg_def)
    have x: "n - 1 = (if sg = 0x2D then - int a else int a)"
      by (simp add: sg_def a_def)
    have X: "X = sg # toStringRadix 10 a" by (simp add: X_def sg_def a_def)
    note et = exponent_text[OF dt f sg x]
    have TD: "positiveToString m e =
        (if k = 1 then ds @ [0x65] @ X else take 1 ds @ [0x2E] @ drop 1 ds @ [0x65] @ X)"
      unfolding T0 by (simp only: D if_False)
    show ?thesis
    proof (cases "k = 1")
      case True
      have T: "positiveToString m e = ds @ 0x65 # sg # toStringRadix 10 a"
        using True by (simp add: TD X)
      have "n - 1 = e" using True by (simp add: e)
      with et(1) True show ?thesis
        unfolding T by (simp add: k_def)
    next
      case False
      with k1 have k2: "1 < length ds" by (simp add: k_def)
      have T: "positiveToString m e = take 1 ds @ 0x2E # drop 1 ds @ 0x65 # sg # toStringRadix 10 a"
        using False by (simp add: TD X)
      have "n - 1 + 1 - int (length ds) = e" by (simp add: e k_def)
      with et(2)[OF k2] show ?thesis
        unfolding T by simp
    qed
  qed
qed

lemma mk_num_zero: "mk_num neg [0x30] e = JNum 0 0"
  by (simp add: mk_num_def nat_of_digits_def)

lemma parse_numberToString:
  assumes "normal_number m e" and f: "follows rest"
  shows "parse_number (numberToString m e @ rest) = Some (JNum m e, rest)"
proof (cases "m = 0")
  case True
  with assms(1) have e: "e = 0" by (simp add: normal_number_def)
  from parse_number_steps(1)[OF parse_int_zero parse_frac_none[OF f] parse_exp_none[OF f]]
  show ?thesis using True e by (simp add: numberToString_def mk_num_zero)
next
  case False
  with assms(1) have nd: "\<not> 10 dvd m" by (simp add: normal_number_def)
  show ?thesis
  proof (cases "m < 0")
    case True
    then have "0 < nat (- m)" "\<not> 10 dvd nat (- m)"
      using nd by (simp_all add: int_dvd_int_iff[symmetric])
    from positive_both[OF this f, of e] True False show ?thesis
      by (simp add: numberToString_def)
  next
    case pos: False
    with False have "0 < nat m" "\<not> 10 dvd nat m"
      using nd by (simp_all add: int_dvd_int_iff[symmetric])
    from positive_both[OF this f, of e] pos False show ?thesis
      by (simp add: numberToString_def)
  qed
qed

lemma numberToString_starts:
  "\<exists>c t. numberToString m e = c # t \<and> (c = 0x2D \<or> isDigit c)"
proof -
  have pos: "\<exists>c t. positiveToString a e = c # t \<and> isDigit c" for a
  proof -
    define ds where "ds = toStringRadix 10 a"
    define k where "k = int (length ds)"
    define n where "n = k + e"
    from decimal_props[of a] have "ds \<noteq> []" "list_all isDigit ds" by (simp_all add: ds_def)
    then obtain c t where ds: "ds = c # t" "isDigit c" by (cases ds) auto
    have z: "isDigit 0x30" by (simp add: isDigit_def)
    have "\<exists>c' t'. (if k \<le> n \<and> n \<le> 21 then ds @ r1
        else if 0 < n \<and> n \<le> 21 then take (nat n) ds @ r2
        else if - 6 < n \<and> n \<le> 0 then [0x30, 0x2E] @ r3
        else if k = 1 then ds @ r4
        else take 1 ds @ r5) = c' # t' \<and> isDigit c'" for r1 r2 r3 r4 r5 :: jsstring
      using ds z by (auto simp: take_Cons')
    then show ?thesis
      unfolding positiveToString_def Let_def ds_def[symmetric] k_def[symmetric] n_def[symmetric]
      by simp
  qed
  show ?thesis
    using pos[of "nat m"] pos[of "nat (- m)"]
    by (auto simp: numberToString_def isDigit_def)
qed

section \<open>JSON.parse inverts JSON.stringify\<close>

lemma hexVal_hexChar: "n < 16 \<Longrightarrow> hexVal (hexChar n) = Some n"
  for n :: "16 word"
  unfolding hexVal_def hexChar_def
  by (auto simp: word_less_alt word_le_def uint_word_ariths split: if_splits) 

lemma nibble_less: "(c :: 16 word) AND 0xF < 16"
  using and_mask_less'[of 4 c] by (simp add: mask_eq_exp_minus_1)

lemma top_nibble_less: "drop_bit 12 (c :: 16 word) < 16"
proof -
  have "unat c < 2 ^ 16" using unsigned_less[of c, where ?'a = nat] by simp
  then have "unat c div 2 ^ 12 < 16" by simp
  then show ?thesis by (simp add: word_less_nat_alt unat_drop_bit_eq drop_bit_eq_div unat_div)
qed

lemma nibbles: "push_bit 12 (drop_bit 12 c) OR push_bit 8 (drop_bit 8 c AND 0xF) OR
   push_bit 4 (drop_bit 4 c AND 0xF) OR (c AND 0xF) = (c :: 16 word)"
proof -
  have m: "(0xF :: 16 word) = mask 4" by (simp add: mask_eq_exp_minus_1)
  show ?thesis
    unfolding m
    apply (rule bit_word_eqI)
    apply (auto simp: bit_simps)
    subgoal for n by (cases "8 \<le> n") auto
    subgoal for n by (cases "8 \<le> n"; cases "12 \<le> n") auto
    done
qed

lemma hex4_escape:
  "hex4 (hexChar (drop_bit 12 c)) (hexChar (drop_bit 8 c AND 0xF))
        (hexChar (drop_bit 4 c AND 0xF)) (hexChar (c AND 0xF)) = Some c"
  unfolding hex4_def
  by (simp only: hexVal_hexChar[OF top_nibble_less] hexVal_hexChar[OF nibble_less]
      prod.case option.case nibbles)

lemma parse_unicodeEscape:
  "parse_string_chars (unicodeEscape c @ t) = consChar c (parse_string_chars t)"
  unfolding unicodeEscape_def by (simp add: hex4_escape)

lemma parse_escape:
  "escapeVal e = Some u \<Longrightarrow> e \<noteq> 0x75 \<Longrightarrow>
     parse_string_chars (0x5C # e # t) = consChar u (parse_string_chars t)"
  by simp

lemma parse_raw_char:
  "c \<noteq> 0x22 \<Longrightarrow> c \<noteq> 0x5C \<Longrightarrow> \<not> c < 0x20 \<Longrightarrow>
     parse_string_chars (c # t) = consChar c (parse_string_chars t)"
  by simp

lemma parse_close: "parse_string_chars (0x22 # t) = Some ([], t)"
  by simp

lemma trailing_raw:
  "isTrailingSurrogate d \<Longrightarrow> d \<noteq> 0x22 \<and> d \<noteq> 0x5C \<and> \<not> d < 0x20"
  by (auto simp: isTrailingSurrogate_def word_le_nat_alt word_less_nat_alt)

lemma qc_escapes:
  "quoteChars (0x8 # cs) = [0x5C, 0x62] @ quoteChars cs"
  "quoteChars (0x9 # cs) = [0x5C, 0x74] @ quoteChars cs"
  "quoteChars (0xA # cs) = [0x5C, 0x6E] @ quoteChars cs"
  "quoteChars (0xC # cs) = [0x5C, 0x66] @ quoteChars cs"
  "quoteChars (0xD # cs) = [0x5C, 0x72] @ quoteChars cs"
  "quoteChars (0x22 # cs) = [0x5C, 0x22] @ quoteChars cs"
  "quoteChars (0x5C # cs) = [0x5C, 0x5C] @ quoteChars cs"
  by simp_all

lemma qc_ctl: "plain c \<Longrightarrow> c < 0x20 \<Longrightarrow> quoteChars (c # cs) = unicodeEscape c @ quoteChars cs"
  by (simp add: plain_def)

lemma qc_lead_end: "plain c \<Longrightarrow> \<not> c < 0x20 \<Longrightarrow> isLeadingSurrogate c \<Longrightarrow>
    quoteChars [c] = unicodeEscape c"
  by (simp add: plain_def)

lemma qc_pair: "plain c \<Longrightarrow> \<not> c < 0x20 \<Longrightarrow> isLeadingSurrogate c \<Longrightarrow> isTrailingSurrogate d \<Longrightarrow>
    quoteChars (c # d # ds) = c # d # quoteChars ds"
  by (simp add: plain_def)

lemma qc_lead_lone: "plain c \<Longrightarrow> \<not> c < 0x20 \<Longrightarrow> isLeadingSurrogate c \<Longrightarrow> \<not> isTrailingSurrogate d \<Longrightarrow>
    quoteChars (c # d # ds) = unicodeEscape c @ quoteChars (d # ds)"
  by (simp add: plain_def del: quoteChars.simps(2) add: quoteChars.simps(2)[of c])

lemma qc_trail: "plain c \<Longrightarrow> \<not> c < 0x20 \<Longrightarrow> \<not> isLeadingSurrogate c \<Longrightarrow> isTrailingSurrogate c \<Longrightarrow>
    quoteChars (c # cs) = unicodeEscape c @ quoteChars cs"
  by (simp add: plain_def)

lemma qc_raw: "plain c \<Longrightarrow> \<not> c < 0x20 \<Longrightarrow> \<not> isLeadingSurrogate c \<Longrightarrow> \<not> isTrailingSurrogate c \<Longrightarrow>
    quoteChars (c # cs) = c # quoteChars cs"
  by (simp add: plain_def)

lemma plain_raw: "plain c \<Longrightarrow> \<not> c < 0x20 \<Longrightarrow>
    parse_string_chars (c # t) = consChar c (parse_string_chars t)"
  by (rule parse_raw_char) (auto simp: plain_def)

lemma parse_quoteChars:
  "parse_string_chars (quoteChars s @ 0x22 # rest) = Some (s, rest)"
proof (induction "length s" arbitrary: s rule: less_induct)
  case less
  note [simp del] = parse_string_chars.simps quoteChars.simps
  note IH = less
  show ?case
  proof (cases s)
    case Nil
    then show ?thesis by (simp add: parse_close quoteChars.simps(1))
  next
    case (Cons c cs)
    have ih: "parse_string_chars (quoteChars cs @ 0x22 # rest) = Some (cs, rest)"
      using IH[of cs] Cons by simp
    show ?thesis
    proof (cases "plain c")
      case False
      then have "c = 0x8 \<or> c = 0x9 \<or> c = 0xA \<or> c = 0xC \<or> c = 0xD \<or> c = 0x22 \<or> c = 0x5C"
        by (simp add: plain_def)
      then show ?thesis
      proof (elim disjE)
        assume "c = 0x8" with ih Cons show ?thesis
          by (simp add: qc_escapes parse_escape[of "0x62" "0x8"] escapeVal_def consChar_def)
      next
        assume "c = 0x9" with ih Cons show ?thesis
          by (simp add: qc_escapes parse_escape[of "0x74" "0x9"] escapeVal_def consChar_def)
      next
        assume "c = 0xA" with ih Cons show ?thesis
          by (simp add: qc_escapes parse_escape[of "0x6E" "0xA"] escapeVal_def consChar_def)
      next
        assume "c = 0xC" with ih Cons show ?thesis
          by (simp add: qc_escapes parse_escape[of "0x66" "0xC"] escapeVal_def consChar_def)
      next
        assume "c = 0xD" with ih Cons show ?thesis
          by (simp add: qc_escapes parse_escape[of "0x72" "0xD"] escapeVal_def consChar_def)
      next
        assume "c = 0x22" with ih Cons show ?thesis
          by (simp add: qc_escapes parse_escape[of "0x22" "0x22"] escapeVal_def consChar_def)
      next
        assume "c = 0x5C" with ih Cons show ?thesis
          by (simp add: qc_escapes parse_escape[of "0x5C" "0x5C"] escapeVal_def consChar_def)
      qed
    next
      case pl: True
      show ?thesis
      proof (cases "c < 0x20")
        case True
        with pl ih Cons show ?thesis
          by (simp add: qc_ctl parse_unicodeEscape consChar_def)
      next
        case notctl: False
        show ?thesis
        proof (cases "isLeadingSurrogate c")
          case lead: True
          show ?thesis
          proof (cases cs)
            case Nil
            with pl notctl lead Cons show ?thesis
              using parse_unicodeEscape[of c "0x22 # rest"]
              by (simp add: qc_lead_end parse_close consChar_def)
          next
            case inner: (Cons d ds)
            show ?thesis
            proof (cases "isTrailingSurrogate d")
              case True
              have "parse_string_chars (quoteChars ds @ 0x22 # rest) = Some (ds, rest)"
                using IH[of ds] Cons inner by simp
              moreover have "plain d" "\<not> d < 0x20"
                using trailing_raw[OF True] True
                by (auto simp: plain_def isTrailingSurrogate_def word_le_nat_alt)
              ultimately show ?thesis
                using pl notctl lead Cons inner True
                by (simp add: qc_pair plain_raw consChar_def)
            next
              case False
              with pl notctl lead Cons inner ih show ?thesis
                by (simp add: qc_lead_lone parse_unicodeEscape consChar_def)
            qed
          qed
        next
          case nolead: False
          show ?thesis
          proof (cases "isTrailingSurrogate c")
            case True
            with pl notctl nolead ih Cons show ?thesis
              by (simp add: qc_trail parse_unicodeEscape consChar_def)
          next
            case False
            with pl notctl nolead ih Cons show ?thesis
              by (simp add: qc_raw plain_raw consChar_def)
          qed
        qed
      qed
    qed
  qed
qed

lemma parse_quoteJSONString:
  "parse_string_chars (tl (quoteJSONString s) @ rest) = Some (s, rest)"
  by (simp add: quoteJSONString_def parse_quoteChars del: parse_string_chars.simps)

lemma insert_index_last:
  "\<forall>p\<in>set ps. \<exists>i. array_index (fst p) = Some i \<and> i < n \<Longrightarrow>
     insert_index n k v ps = ps @ [(k, v)]"
  by (induction ps) auto

lemma define_prop_last:
  assumes "keys_ordered (map fst (ps @ [kv]))"
  shows "define_prop ps kv = ps @ [kv]"
proof -
  from assms have new: "fst kv \<notin> fst ` set ps"
    and before: "\<forall>p\<in>set ps. key_before (fst p) (fst kv)"
    by (auto simp: keys_ordered_def sorted_wrt_append)
  show ?thesis
  proof (cases "array_index (fst kv)")
    case None
    with new show ?thesis by (simp add: define_prop_def)
  next
    case (Some n)
    with before have "\<forall>p\<in>set ps. \<exists>i. array_index (fst p) = Some i \<and> i < n"
      by (auto simp: key_before_def split: option.splits)
    from insert_index_last[OF this, of "fst kv" "snd kv"] new Some show ?thesis
      by (simp add: define_prop_def)
  qed
qed

lemma keys_ordered_butlast: "keys_ordered (map fst (ps @ [kv])) \<Longrightarrow> keys_ordered (map fst ps)"
  by (auto simp: keys_ordered_def sorted_wrt_append)

lemma foldl_define_prop: "keys_ordered (map fst ps) \<Longrightarrow> foldl define_prop [] ps = ps"
proof (induction ps rule: rev_induct)
  case Nil
  show ?case by simp
next
  case (snoc kv ps)
  from snoc.prems have "keys_ordered (map fst ps)" by (rule keys_ordered_butlast)
  with snoc.IH have "foldl define_prop [] ps = ps" by simp
  with define_prop_last[OF snoc.prems] show ?case by simp
qed

lemma starts_value_not_ws: "starts_value c \<Longrightarrow> \<not> isJSONWhiteSpace c \<and> c \<noteq> 0x5D \<and> c \<noteq> 0x7D"
  by (auto simp: starts_value_def isJSONWhiteSpace_def isDigit_def word_le_nat_alt)

lemma skip_ws_Cons: "\<not> isJSONWhiteSpace c \<Longrightarrow> skip_ws (c # t) = c # t"
  by (simp add: skip_ws_def)

lemma pv_string:
  "parse_value (Suc n) (0x22 # t) =
     (case parse_string_chars t of None \<Rightarrow> PSyntaxError | Some (str, r) \<Rightarrow> POk (JStr str) r)"
  by (simp add: skip_ws_def isJSONWhiteSpace_def)

lemma pv_null: "parse_value (Suc n) (ascii ''null'' @ t) = POk JNull t"
  by (simp add: skip_ws_def isJSONWhiteSpace_def ascii_def strip_prefix_def)

lemma pv_true: "parse_value (Suc n) (ascii ''true'' @ t) = POk (JBool True) t"
  by (simp add: skip_ws_def isJSONWhiteSpace_def ascii_def strip_prefix_def)

lemma pv_false: "parse_value (Suc n) (ascii ''false'' @ t) = POk (JBool False) t"
  by (simp add: skip_ws_def isJSONWhiteSpace_def ascii_def strip_prefix_def)

lemma pv_array_empty: "parse_value (Suc n) (0x5B # 0x5D # t) = POk (JArr []) t"
  by (simp add: skip_ws_def isJSONWhiteSpace_def)

lemma pv_array: "starts_value d \<Longrightarrow> parse_value (Suc n) (0x5B # d # t) = parse_elements n [] (d # t)"
  using starts_value_not_ws[of d] by (simp add: skip_ws_def isJSONWhiteSpace_def)

lemma pv_object_empty: "parse_value (Suc n) (0x7B # 0x7D # t) = POk (JObj []) t"
  by (simp add: skip_ws_def isJSONWhiteSpace_def)

lemma pv_object: "parse_value (Suc n) (0x7B # 0x22 # t) = parse_members n [] (0x22 # t)"
  by (simp add: skip_ws_def isJSONWhiteSpace_def)

lemma pe_more:
  "parse_value n s = POk v (0x2C # r) \<Longrightarrow>
     parse_elements (Suc n) acc s = parse_elements n (acc @ [v]) r"
  by (simp add: skip_ws_def isJSONWhiteSpace_def)

lemma pe_last:
  "parse_value n s = POk v (0x5D # r) \<Longrightarrow>
     parse_elements (Suc n) acc s = POk (JArr (acc @ [v])) r"
  by (simp add: skip_ws_def isJSONWhiteSpace_def)

lemma pm_more:
  "parse_string_chars t = Some (k, 0x3A # s3) \<Longrightarrow> parse_value n s3 = POk v (0x2C # r) \<Longrightarrow>
     parse_members (Suc n) acc (0x22 # t) = parse_members n (define_prop acc (k, v)) r"
  by (simp add: skip_ws_def isJSONWhiteSpace_def)

lemma pm_last:
  "parse_string_chars t = Some (k, 0x3A # s3) \<Longrightarrow> parse_value n s3 = POk v (0x7D # r) \<Longrightarrow>
     parse_members (Suc n) acc (0x22 # t) = POk (JObj (define_prop acc (k, v))) r"
  by (simp add: skip_ws_def isJSONWhiteSpace_def)

lemma pv_number:
  assumes "c = 0x2D \<or> isDigit c"
  shows "parse_value (Suc n) (c # t) =
     (case parse_number (c # t) of None \<Rightarrow> PSyntaxError | Some (v, r) \<Rightarrow> POk v r)"
proof -
  from assms have "\<not> isJSONWhiteSpace c" "c \<noteq> 0x7B" "c \<noteq> 0x5B" "c \<noteq> 0x22"
    "c \<noteq> 0x74" "c \<noteq> 0x66" "c \<noteq> 0x6E"
    by (auto simp: isJSONWhiteSpace_def isDigit_def)
  then show ?thesis by (simp add: skip_ws_def)
qed

lemma stringify_starts:
  "js_value v \<Longrightarrow> \<exists>c t. JSON_stringify v = c # t \<and> starts_value c"
proof (cases v)
  case (JNum m e)
  with numberToString_starts[of m e] show ?thesis
    by (auto simp: starts_value_def)
qed (auto simp: starts_value_def ascii_def quoteJSONString_def)

lemma elements_start:
  "xs \<noteq> [] \<Longrightarrow> \<forall>x\<in>set xs. js_value x \<Longrightarrow>
     \<exists>c t. stringify_elements xs = c # t \<and> starts_value c"
proof (cases xs)
  case Nil
  then show "xs \<noteq> [] \<Longrightarrow> ?thesis" by simp
next
  case (Cons x ys)
  assume "\<forall>x\<in>set xs. js_value x"
  with Cons stringify_starts[of x] obtain c t where "JSON_stringify x = c # t" "starts_value c"
    by auto
  with Cons show ?thesis by (cases ys) auto
qed

lemma members_start:
  "ps \<noteq> [] \<Longrightarrow> \<exists>t. stringify_members ps = 0x22 # t"
proof (cases ps)
  case Nil
  then show "ps \<noteq> [] \<Longrightarrow> ?thesis" by simp
next
  case (Cons p qs)
  then show ?thesis by (cases p; cases qs) (auto simp: quoteJSONString_def)
qed

lemma roundtrip_value:
  "\<forall>n rest. js_value v \<longrightarrow> follows rest \<longrightarrow> length (JSON_stringify v) < n \<longrightarrow>
      parse_value n (JSON_stringify v @ rest) = POk v rest"
  and roundtrip_elements:
  "\<forall>n acc rest. xs \<noteq> [] \<longrightarrow> (\<forall>x\<in>set xs. js_value x) \<longrightarrow>
      length (stringify_elements xs) + 1 < n \<longrightarrow>
      parse_elements n acc (stringify_elements xs @ 0x5D # rest) = POk (JArr (acc @ xs)) rest"
  and roundtrip_members:
  "\<forall>n acc rest. ps \<noteq> [] \<longrightarrow> (\<forall>p\<in>set ps. js_value (snd p)) \<longrightarrow>
      length (stringify_members ps) + 1 < n \<longrightarrow>
      parse_members n acc (stringify_members ps @ 0x7D # rest) =
        POk (JObj (foldl define_prop acc ps)) rest"
proof (induction v and xs and ps rule: JSON_stringify_stringify_elements_stringify_members.induct)
  case 1
  show ?case
  proof (intro allI impI)
    fix n rest assume "length (JSON_stringify JNull) < n"
    then obtain n' where "n = Suc n'" by (cases n) auto
    then show "parse_value n (JSON_stringify JNull @ rest) = POk JNull rest"
      by (simp add: pv_null del: parse_value.simps)
  qed
next
  case (2 b)
  show ?case
  proof (intro allI impI)
    fix n rest assume "length (JSON_stringify (JBool b)) < n"
    then obtain n' where "n = Suc n'" by (cases n) auto
    then show "parse_value n (JSON_stringify (JBool b) @ rest) = POk (JBool b) rest"
      by (simp add: pv_true pv_false del: parse_value.simps)
  qed
next
  case (3 m e)
  show ?case
  proof (intro allI impI)
    fix n rest
    assume wf: "js_value (JNum m e)" and f: "follows rest"
      and len: "length (JSON_stringify (JNum m e)) < n"
    from len obtain n' where n: "n = Suc n'" by (cases n) auto
    from numberToString_starts[of m e] obtain c t
      where st: "numberToString m e = c # t" "c = 0x2D \<or> isDigit c" by auto
    from wf f have "parse_number (numberToString m e @ rest) = Some (JNum m e, rest)"
      by (simp add: parse_numberToString)
    with pv_number[OF st(2), of n' "t @ rest"] st(1) n
    show "parse_value n (JSON_stringify (JNum m e) @ rest) = POk (JNum m e) rest"
      by (simp del: parse_value.simps)
  qed
next
  case (4 s)
  show ?case
  proof (intro allI impI)
    fix n rest assume "length (JSON_stringify (JStr s)) < n"
    then obtain n' where "n = Suc n'" by (cases n) auto
    then show "parse_value n (JSON_stringify (JStr s) @ rest) = POk (JStr s) rest"
      by (simp add: pv_string quoteJSONString_def parse_quoteChars
          del: parse_value.simps parse_string_chars.simps)
  qed
next
  case (5 xs)
  show ?case
  proof (intro allI impI)
    fix n rest
    assume wf: "js_value (JArr xs)" and len: "length (JSON_stringify (JArr xs)) < n"
    from len obtain n' where n: "n = Suc n'" by (cases n) auto
    show "parse_value n (JSON_stringify (JArr xs) @ rest) = POk (JArr xs) rest"
    proof (cases "xs = []")
      case True
      with n show ?thesis by (simp add: pv_array_empty del: parse_value.simps)
    next
      case False
      from wf have all: "\<forall>x\<in>set xs. js_value x" by simp
      from elements_start[OF False all] obtain c t
        where st: "stringify_elements xs = c # t" "starts_value c" by auto
      from len n have "length (stringify_elements xs) + 1 < n'" by simp
      with 5 False all have "parse_elements n' [] (stringify_elements xs @ 0x5D # rest) = POk (JArr ([] @ xs)) rest"
        by blast
      with st n show ?thesis
        by (simp add: pv_array del: parse_value.simps)
    qed
  qed
next
  case (6 ps)
  show ?case
  proof (intro allI impI)
    fix n rest
    assume wf: "js_value (JObj ps)" and len: "length (JSON_stringify (JObj ps)) < n"
    from len obtain n' where n: "n = Suc n'" by (cases n) auto
    show "parse_value n (JSON_stringify (JObj ps) @ rest) = POk (JObj ps) rest"
    proof (cases "ps = []")
      case True
      with n show ?thesis by (simp add: pv_object_empty del: parse_value.simps)
    next
      case False
      from wf have all: "\<forall>p\<in>set ps. js_value (snd p)" and ord: "keys_ordered (map fst ps)" by simp_all
      from members_start[OF False] obtain t where st: "stringify_members ps = 0x22 # t" by auto
      from len n have "length (stringify_members ps) + 1 < n'" by simp
      with 6 False all have "parse_members n' [] (stringify_members ps @ 0x7D # rest) =
          POk (JObj (foldl define_prop [] ps)) rest"
        by blast
      with st n foldl_define_prop[OF ord] show ?thesis
        by (simp add: pv_object del: parse_value.simps)
    qed
  qed
next
  case 7
  show ?case by simp
next
  case (8 x)
  show ?case
  proof (intro allI impI)
    fix n acc rest
    assume wf: "\<forall>y\<in>set [x]. js_value y" and len: "length (stringify_elements [x]) + 1 < n"
    from len obtain n' where n: "n = Suc n'" by (cases n) auto
    from len n have "length (JSON_stringify x) < n'" by simp
    moreover have "follows (0x5D # rest)" by (simp add: follows_def)
    ultimately have "parse_value n' (JSON_stringify x @ 0x5D # rest) = POk x (0x5D # rest)"
      using 8 wf by simp
    from pe_last[OF this] n
    show "parse_elements n acc (stringify_elements [x] @ 0x5D # rest) = POk (JArr (acc @ [x])) rest"
      by (simp del: parse_elements.simps)
  qed
next
  case (9 x y ys)
  show ?case
  proof (intro allI impI)
    fix n acc rest
    assume wf: "\<forall>z\<in>set (x # y # ys). js_value z"
      and len: "length (stringify_elements (x # y # ys)) + 1 < n"
    from len obtain n' where n: "n = Suc n'" by (cases n) auto
    from len n have l1: "length (JSON_stringify x) < n'"
      and l2: "length (stringify_elements (y # ys)) + 1 < n'" by simp_all
    have "follows (0x2C # stringify_elements (y # ys) @ 0x5D # rest)" by (simp add: follows_def)
    with 9 wf l1 have "parse_value n' (JSON_stringify x @ 0x2C # stringify_elements (y # ys) @ 0x5D # rest)
        = POk x (0x2C # stringify_elements (y # ys) @ 0x5D # rest)"
      by simp
    from pe_more[OF this]
    have "parse_elements n acc (stringify_elements (x # y # ys) @ 0x5D # rest) =
        parse_elements n' (acc @ [x]) (stringify_elements (y # ys) @ 0x5D # rest)"
      using n by (simp del: parse_elements.simps)
    also have "\<dots> = POk (JArr ((acc @ [x]) @ y # ys)) rest"
      using 9 wf l2 by simp
    finally show "parse_elements n acc (stringify_elements (x # y # ys) @ 0x5D # rest) =
        POk (JArr (acc @ x # y # ys)) rest"
      by simp
  qed
next
  case 10
  show ?case by simp
next
  case (11 k v)
  show ?case
  proof (intro allI impI)
    fix n acc rest
    assume wf: "\<forall>p\<in>set [(k, v)]. js_value (snd p)"
      and len: "length (stringify_members [(k, v)]) + 1 < n"
    from len obtain n' where n: "n = Suc n'" by (cases n) auto
    from len n have "length (JSON_stringify v) < n'" by simp
    moreover have "follows (0x7D # rest)" by (simp add: follows_def)
    ultimately have pv: "parse_value n' (JSON_stringify v @ 0x7D # rest) = POk v (0x7D # rest)"
      using 11 wf by simp
    have ps: "parse_string_chars (quoteChars k @ 0x22 # 0x3A # JSON_stringify v @ 0x7D # rest) =
        Some (k, 0x3A # JSON_stringify v @ 0x7D # rest)"
      by (rule parse_quoteChars)
    from pm_last[OF ps pv] n
    show "parse_members n acc (stringify_members [(k, v)] @ 0x7D # rest) =
        POk (JObj (foldl define_prop acc [(k, v)])) rest"
      by (simp add: quoteJSONString_def del: parse_members.simps)
  qed
next
  case (12 k v q qs)
  show ?case
  proof (intro allI impI)
    fix n acc rest
    assume wf: "\<forall>p\<in>set ((k, v) # q # qs). js_value (snd p)"
      and len: "length (stringify_members ((k, v) # q # qs)) + 1 < n"
    from len obtain n' where n: "n = Suc n'" by (cases n) auto
    from len n have l1: "length (JSON_stringify v) < n'"
      and l2: "length (stringify_members (q # qs)) + 1 < n'" by simp_all
    let ?tail = "stringify_members (q # qs) @ 0x7D # rest"
    have "follows (0x2C # ?tail)" by (simp add: follows_def)
    with 12 wf l1 have pv: "parse_value n' (JSON_stringify v @ 0x2C # ?tail) = POk v (0x2C # ?tail)"
      by simp
    have ps: "parse_string_chars (quoteChars k @ 0x22 # 0x3A # JSON_stringify v @ 0x2C # ?tail) =
        Some (k, 0x3A # JSON_stringify v @ 0x2C # ?tail)"
      by (rule parse_quoteChars)
    from pm_more[OF ps pv]
    have "parse_members n acc (stringify_members ((k, v) # q # qs) @ 0x7D # rest) =
        parse_members n' (define_prop acc (k, v)) ?tail"
      using n by (simp add: quoteJSONString_def del: parse_members.simps)
    also have "\<dots> = POk (JObj (foldl define_prop (define_prop acc (k, v)) (q # qs))) rest"
      using 12 wf l2 by simp
    finally show "parse_members n acc (stringify_members ((k, v) # q # qs) @ 0x7D # rest) =
        POk (JObj (foldl define_prop acc ((k, v) # q # qs))) rest"
      by simp
  qed
qed

lemma JSON_parse_stringify: "js_value v \<Longrightarrow> JSON_parse (JSON_stringify v) = Some v"
proof -
  assume wf: "js_value v"
  have "follows []" by (simp add: follows_def)
  moreover have "length (JSON_stringify v) < 2 * length (JSON_stringify v) + 2" by simp
  ultimately have "parse_value (2 * length (JSON_stringify v) + 2) (JSON_stringify v @ []) = POk v []"
    using roundtrip_value wf by blast
  then show ?thesis by (simp add: JSON_parse_def skip_ws_def)
qed

lemma valid_entries_map: "\<forall>t\<in>set ts. valid_todo t \<Longrightarrow> valid_entries (map JObj ts) = ts"
  by (induction ts) auto

section \<open>JSON.parse returns values of the runtime\<close>

lemma nat_of_digits_snoc: "nat_of_digits (xs @ [c]) = 10 * nat_of_digits xs + (unat c - 48)"
  by (simp add: nat_of_digits_def)

lemma digit_value: "isDigit c \<Longrightarrow> unat c - 48 < 10 \<and> (c \<noteq> 0x30 \<longrightarrow> 0 < unat c - 48)"
proof -
  assume "isDigit c"
  then have b: "48 \<le> unat c" "unat c \<le> 57" by (simp_all add: isDigit_def word_le_nat_alt)
  have "c = 0x30 \<longleftrightarrow> unat c = unat (0x30 :: 16 word)" by (simp only: word_unat_eq_iff)
  with b show ?thesis by auto
qed

lemma mk_num_normal:
  assumes "list_all isDigit ds"
  shows "\<exists>m e'. mk_num neg ds e = JNum m e' \<and> normal_number m e'"
proof -
  define ds' where "ds' = rev (dropWhile (\<lambda>c. c = 0x30) (rev ds))"
  show ?thesis
  proof (cases "nat_of_digits ds' = 0")
    case True
    then show ?thesis by (simp add: mk_num_def Let_def ds'_def normal_number_def)
  next
    case False
    then have ne: "ds' \<noteq> []" by (auto simp: nat_of_digits_def)
    then obtain xs c where sn: "ds' = xs @ [c]" by (cases ds' rule: rev_cases) auto
    then have "rev (rev (dropWhile (\<lambda>c. c = 0x30) (rev ds))) = rev (xs @ [c])"
      by (simp only: ds'_def)
    then have "dropWhile (\<lambda>c. c = 0x30) (rev ds) = c # rev xs" by simp
    then have c0: "c \<noteq> 0x30" and "c \<in> set ds"
      using hd_dropWhile[of "\<lambda>c. c = 0x30" "rev ds"] set_dropWhileD[of c "\<lambda>c. c = 0x30" "rev ds"]
      by auto
    with assms have "isDigit c" by (simp add: list_all_iff)
    from digit_value[OF this] c0 have d: "unat c - 48 < 10" "0 < unat c - 48" by simp_all
    define dv where "dv = unat c - 48"
    have "nat_of_digits ds' = 10 * nat_of_digits xs + dv"
      by (simp only: sn nat_of_digits_snoc dv_def)
    then have "nat_of_digits ds' mod 10 = unat c - 48"
      using d by (simp add: dv_def[symmetric])
    with d have nd: "\<not> 10 dvd nat_of_digits ds'" by (simp add: dvd_eq_mod_eq_0)
    then have "\<not> 10 dvd int (nat_of_digits ds')" "\<not> 10 dvd - int (nat_of_digits ds')"
      by (simp_all add: int_dvd_int_iff[symmetric])
    with False show ?thesis
      by (simp add: mk_num_def Let_def ds'_def[symmetric] normal_number_def)
  qed
qed

lemma takeWhile_digits: "list_all isDigit (takeWhile isDigit s)"
  by (auto simp: list_all_iff dest: set_takeWhileD)

lemma parse_int_part_digits: "parse_int_part s = Some (ip, r) \<Longrightarrow> list_all isDigit ip"
proof -
  have z: "isDigit 0x30" by (simp add: isDigit_def)
  assume "parse_int_part s = Some (ip, r)"
  then show ?thesis
    using z by (auto simp: parse_int_part_def takeWhile_digits split: list.splits if_splits)
qed

lemma parse_frac_digits: "parse_frac s = Some (fp, r) \<Longrightarrow> list_all isDigit fp"
  by (auto simp: parse_frac_def takeWhile_digits split: list.splits if_splits)

lemma parse_number_normal: "parse_number s = Some (v, r) \<Longrightarrow> js_value v"
proof -
  assume a: "parse_number s = Some (v, r)"
  then obtain neg s1 ip s2 fp s3 ex where "parse_int_part s1 = Some (ip, s2)"
    "parse_frac s2 = Some (fp, s3)" and v: "v = mk_num neg (ip @ fp) (ex - int (length fp))"
    by (auto simp: parse_number_def Let_def split: option.splits)
  from parse_int_part_digits[OF this(1)] parse_frac_digits[OF this(2)]
  have "list_all isDigit (ip @ fp)" by simp
  from mk_num_normal[OF this, of neg "ex - int (length fp)"] v show ?thesis by auto
qed

lemma digitChar_digit: "isDigit c \<Longrightarrow> digitChar (unat c - 48) = c"
proof -
  assume "isDigit c"
  then have b: "48 \<le> unat c" "unat c \<le> 57" by (simp_all add: isDigit_def word_le_nat_alt)
  then have "unat c - 48 < 10" "48 + (unat c - 48) = unat c" by arith+
  then have "digitChar (unat c - 48) = of_nat (unat c)" by (simp only: digitChar_def if_True)
  then show ?thesis by simp
qed

lemma canonical_text:
  "k \<noteq> [] \<Longrightarrow> list_all isDigit k \<Longrightarrow> (hd k = 0x30 \<longrightarrow> length k = 1) \<Longrightarrow>
     k = toStringRadix 10 (nat_of_digits k)"
proof (induction k rule: rev_induct)
  case Nil
  then show ?case by simp
next
  case (snoc c xs)
  from snoc.prems have c: "isDigit c" by simp
  define d where "d = unat c - 48"
  from digit_value[OF c] have d: "d < 10" by (simp add: d_def)
  have dc: "digitChar d = c" unfolding d_def by (rule digitChar_digit[OF c])
  have v: "nat_of_digits (xs @ [c]) = 10 * nat_of_digits xs + d"
    by (simp only: nat_of_digits_snoc d_def)
  show ?case
  proof (cases "xs = []")
    case True
    then have "nat_of_digits (xs @ [c]) = d" by (simp add: nat_of_digits_def d_def)
    with True d dc show ?thesis
      by (simp add: toStringRadix_def digits_small)
  next
    case False
    with snoc.prems have h: "hd xs \<noteq> 0x30" and dx: "list_all isDigit xs" by auto
    with False snoc.IH have xs: "xs = toStringRadix 10 (nat_of_digits xs)" by simp
    have pos: "0 < nat_of_digits xs"
    proof (rule ccontr)
      assume "\<not> 0 < nat_of_digits xs"
      then have "nat_of_digits xs = 0" by simp
      with xs have "xs = toStringRadix 10 0" by simp
      then have "hd xs = 0x30" by (simp add: toStringRadix_def digits_small digitChar_def)
      with h show False by simp
    qed
    then have big: "\<not> 10 * nat_of_digits xs + d < 10" by simp
    have "digits 10 (10 * nat_of_digits xs + d) = digits 10 (nat_of_digits xs) @ [d]"
      using digits_big[OF big] d by simp
    then have "toStringRadix 10 (nat_of_digits (xs @ [c])) = toStringRadix 10 (nat_of_digits xs) @ [c]"
      by (simp add: toStringRadix_def v dc)
    with xs show ?thesis by simp
  qed
qed

lemma array_index_text: "array_index k = Some n \<Longrightarrow> k = toStringRadix 10 n"
  using canonical_text[of k] by (auto simp: array_index_def split: if_splits)

lemma array_index_inj: "array_index k = Some n \<Longrightarrow> array_index k' = Some n \<Longrightarrow> k = k'"
  using array_index_text[of k n] array_index_text[of k' n] by simp

lemma set_prop_keys:
  "map fst (set_prop k v ps) = (if k \<in> fst ` set ps then map fst ps else map fst ps @ [k])"
  by (induction ps) auto

lemma set_prop_values: "set (set_prop k v ps) \<subseteq> insert (k, v) (set ps)"
  by (induction ps) auto

lemma key_before_plain: "array_index k = None \<Longrightarrow> key_before k' k"
  by (simp add: key_before_def split: option.splits)

lemma keys_ordered_snoc_plain:
  "keys_ordered ks \<Longrightarrow> k \<notin> set ks \<Longrightarrow> array_index k = None \<Longrightarrow> keys_ordered (ks @ [k])"
  by (simp add: keys_ordered_def sorted_wrt_append key_before_plain)

lemma set_prop_ok:
  assumes "obj_ok ps" and "js_value v" and "array_index k = None \<or> k \<in> fst ` set ps"
  shows "obj_ok (set_prop k v ps)"
proof -
  have "keys_ordered (map fst (set_prop k v ps))"
    using assms(1,3) by (auto simp: set_prop_keys obj_ok_def intro: keys_ordered_snoc_plain)
  moreover have "\<forall>p\<in>set (set_prop k v ps). js_value (snd p)"
    using set_prop_values[of k v ps] assms(1,2) by (auto simp: obj_ok_def)
  ultimately show ?thesis by (simp add: obj_ok_def)
qed

lemma insert_index_set: "set (insert_index n k v ps) = insert (k, v) (set ps)"
  by (induction ps) (auto split: option.splits)

lemma key_before_trans: "key_before a b \<Longrightarrow> key_before b c \<Longrightarrow> key_before a c"
  by (auto simp: key_before_def split: option.splits)

lemma insert_index_ordered:
  assumes "array_index k = Some n"
  shows "keys_ordered (map fst ps) \<Longrightarrow> k \<notin> fst ` set ps \<Longrightarrow>
     keys_ordered (map fst (insert_index n k v ps))"
proof (induction ps)
  case Nil
  then show ?case by (simp add: keys_ordered_def)
next
  case (Cons p ps)
  from Cons.prems have ord: "keys_ordered (map fst ps)" and new: "k \<notin> fst ` set ps" "fst p \<noteq> k"
    and pd: "fst p \<notin> fst ` set ps" and pb: "\<forall>q\<in>set ps. key_before (fst p) (fst q)"
    by (auto simp: keys_ordered_def)
  have front: "keys_ordered (map fst ((k, v) # p # ps))" if "key_before k (fst p)"
  proof -
    from that pb have "\<forall>q\<in>set ps. key_before k (fst q)"
      by (auto intro: key_before_trans)
    with that Cons.prems show ?thesis by (auto simp: keys_ordered_def)
  qed
  show ?case
  proof (cases "array_index (fst p)")
    case None
    with assms have "key_before k (fst p)" by (simp add: key_before_def)
    from front[OF this] None show ?thesis by simp
  next
    case (Some i)
    show ?thesis
    proof (cases "n < i")
      case True
      with assms Some have "key_before k (fst p)" by (simp add: key_before_def)
      from front[OF this] Some True show ?thesis by simp
    next
      case False
      from array_index_inj[OF Some, of k] assms new(2) have "i \<noteq> n" by auto
      with False have "i < n" by simp
      with assms Some have pk: "key_before (fst p) k" by (simp add: key_before_def)
      from Cons.IH[OF ord new(1)] have rec: "keys_ordered (map fst (insert_index n k v ps))" .
      have "fst ` set (insert_index n k v ps) = insert k (fst ` set ps)"
        by (simp add: insert_index_set)
      with rec pk pb pd new(2) have "keys_ordered (map fst (p # insert_index n k v ps))"
        by (auto simp: keys_ordered_def)
      with Some False show ?thesis by simp
    qed
  qed
qed

lemma define_prop_ok:
  assumes "obj_ok ps" and "js_value v"
  shows "obj_ok (define_prop ps (k, v))"
proof (cases "k \<in> fst ` set ps")
  case True
  with set_prop_ok[OF assms, of k] show ?thesis by (simp add: define_prop_def)
next
  case new: False
  show ?thesis
  proof (cases "array_index k")
    case None
    with new assms show ?thesis
      by (auto simp: define_prop_def obj_ok_def intro: keys_ordered_snoc_plain)
  next
    case (Some n)
    from insert_index_ordered[OF Some, of ps v] new assms(1)
    have "keys_ordered (map fst (insert_index n k v ps))" by (simp add: obj_ok_def)
    with new Some assms show ?thesis
      by (simp add: define_prop_def obj_ok_def insert_index_set)
  qed
qed

lemma obj_ok_Nil: "obj_ok []"
  by (simp add: obj_ok_def keys_ordered_def)

lemma obj_ok_value: "obj_ok ps \<Longrightarrow> js_value (JObj ps)"
  by (simp add: obj_ok_def)

lemma sound_value:
  assumes "sound n"
  shows "parse_value (Suc n) s = POk v r \<Longrightarrow> js_value v"
proof -
  assume a: "parse_value (Suc n) s = POk v r"
  then obtain c cs where sk: "skip_ws s = c # cs"
    by (cases "skip_ws s") auto
  consider (obj) "c = 0x7B" | (arr) "c \<noteq> 0x7B" "c = 0x5B" | (str) "c \<noteq> 0x7B" "c \<noteq> 0x5B" "c = 0x22"
    | (other) "c \<noteq> 0x7B" "c \<noteq> 0x5B" "c \<noteq> 0x22" by blast
  then show ?thesis
  proof cases
    case obj
    with a sk obtain d r' where d: "skip_ws cs = d # r'"
      by (cases "skip_ws cs") auto
    show ?thesis
    proof (cases "d = 0x7D")
      case True
      with a sk obj d have "v = JObj []" by simp
      then show ?thesis by (simp add: keys_ordered_def)
    next
      case False
      with a sk obj d have "parse_members n [] cs = POk v r" by simp
      with assms obj_ok_Nil show ?thesis unfolding sound_def by blast
    qed
  next
    case arr
    with a sk obtain d r' where d: "skip_ws cs = d # r'"
      by (cases "skip_ws cs") auto
    show ?thesis
    proof (cases "d = 0x5D")
      case True
      with a sk arr d have "v = JArr []" by simp
      then show ?thesis by simp
    next
      case False
      with a sk arr d have "parse_elements n [] cs = POk v r" by simp
      moreover have "\<forall>x\<in>set ([] :: json list). js_value x" by simp
      ultimately show ?thesis using assms unfolding sound_def by blast
    qed
  next
    case str
    with a sk obtain st where "v = JStr st"
      by (auto split: option.splits)
    then show ?thesis by simp
  next
    case other
    show ?thesis
    proof (cases "c = 0x74 \<or> c = 0x66 \<or> c = 0x6E")
      case True
      with other a sk have "v = JBool True \<or> v = JBool False \<or> v = JNull"
        by (auto split: option.splits if_splits)
      then show ?thesis by auto
    next
      case False
      with other a sk obtain r' where "parse_number (c # cs) = Some (v, r')"
        by (auto split: option.splits)
      then show ?thesis by (rule parse_number_normal)
    qed
  qed
qed

lemma sound_elements:
  assumes "sound n" and acc: "\<forall>x\<in>set acc. js_value x"
  shows "parse_elements (Suc n) acc s = POk v r \<Longrightarrow> js_value v"
proof -
  assume a: "parse_elements (Suc n) acc s = POk v r"
  then obtain w r1 where pv: "parse_value n s = POk w r1"
    by (cases "parse_value n s") auto
  with assms(1) have w: "js_value w" unfolding sound_def by blast
  from a pv obtain c r2 where sk: "skip_ws r1 = c # r2"
    by (cases "skip_ws r1") auto
  from acc w have acc': "\<forall>x\<in>set (acc @ [w]). js_value x" by simp
  show ?thesis
  proof (cases "c = 0x2C")
    case True
    with a pv sk have "parse_elements n (acc @ [w]) r2 = POk v r" by simp
    with assms(1) acc' show ?thesis unfolding sound_def by blast
  next
    case False
    with a pv sk have "v = JArr (acc @ [w])" by (auto split: if_splits)
    with acc' show ?thesis by simp
  qed
qed

lemma sound_members:
  assumes "sound n" and acc: "obj_ok acc"
  shows "parse_members (Suc n) acc s = POk v r \<Longrightarrow> js_value v"
proof -
  assume a: "parse_members (Suc n) acc s = POk v r"
  then obtain q s1 where sk: "skip_ws s = q # s1"
    by (cases "skip_ws s") auto
  from a sk have q: "q = 0x22" by (auto split: if_splits)
  from a sk q obtain k s2 where ps: "parse_string_chars s1 = Some (k, s2)"
    by (cases "parse_string_chars s1") auto
  from a sk q ps obtain c s3 where sk2: "skip_ws s2 = c # s3"
    by (cases "skip_ws s2") auto
  from a sk q ps sk2 have c: "c = 0x3A" by (auto split: if_splits)
  from a sk q ps sk2 c obtain w r1 where pv: "parse_value n s3 = POk w r1"
    by (cases "parse_value n s3") auto
  with assms(1) have w: "js_value w" unfolding sound_def by blast
  from define_prop_ok[OF acc w, of k] have acc': "obj_ok (define_prop acc (k, w))" .
  from a sk q ps sk2 c pv obtain d r2 where sk3: "skip_ws r1 = d # r2"
    by (cases "skip_ws r1") auto
  show ?thesis
  proof (cases "d = 0x2C")
    case True
    with a sk q ps sk2 c pv sk3 have "parse_members n (define_prop acc (k, w)) r2 = POk v r" by simp
    with assms(1) acc' show ?thesis unfolding sound_def by blast
  next
    case False
    with a sk q ps sk2 c pv sk3 have "v = JObj (define_prop acc (k, w))" by (auto split: if_splits)
    with acc' show ?thesis by (simp add: obj_ok_def)
  qed
qed

lemma sound_all: "sound n"
proof (induction n)
  case 0
  show ?case by (simp add: sound_def)
next
  case (Suc n)
  show ?case
    unfolding sound_def
    using sound_value[OF Suc] sound_elements[OF Suc] sound_members[OF Suc]
    by blast
qed

lemma JSON_parse_value: "JSON_parse s = Some v \<Longrightarrow> js_value v"
proof -
  assume "JSON_parse s = Some v"
  then obtain r where "parse_value (2 * length s + 2) s = POk v r"
    by (cases "parse_value (2 * length s + 2) s")
      (auto simp: JSON_parse_def simp del: parse_value.simps split: if_splits)
  with sound_all[of "2 * length s + 2"] show ?thesis
    unfolding sound_def by blast
qed

section \<open>Every list the application reaches is well formed\<close>

lemma trim_idem: "trim (trim s) = trim s"
proof -
  define a where "a = dropWhile isWhiteSpace s"
  define t where "t = rev (dropWhile isWhiteSpace (rev a))"
  have t: "trim s = t" by (simp add: trim_def t_def a_def)
  have pre: "a = t @ rev (takeWhile isWhiteSpace (rev a))"
  proof -
    have "rev (takeWhile isWhiteSpace (rev a) @ dropWhile isWhiteSpace (rev a)) = rev (rev a)"
      by (simp only: takeWhile_dropWhile_id)
    then show ?thesis by (simp only: rev_append rev_rev_ident t_def)
  qed
  have front: "dropWhile isWhiteSpace t = t"
  proof (cases t)
    case Nil
    then show ?thesis by simp
  next
    case (Cons c cs)
    with pre have "a \<noteq> []" and "hd a = c" by (cases a; simp)+
    with hd_dropWhile[of isWhiteSpace s] have "\<not> isWhiteSpace c" by (simp add: a_def)
    with Cons show ?thesis by simp
  qed
  have rear: "rev (dropWhile isWhiteSpace (rev t)) = t"
    by (simp add: t_def)
  have "trim t = t" by (simp only: trim_def front rear)
  then show ?thesis by (simp only: t)
qed

lemma digits_nonempty: "digits b n \<noteq> []"
  by (subst digits.simps) simp

lemma generateId_nonempty: "generateId now random36 \<noteq> []"
  by (simp add: generateId_def toStringRadix_def digits_nonempty)

lemma plain_keys:
  "array_index (ascii ''id'') = None" "array_index (ascii ''text'') = None"
  "array_index (ascii ''completed'') = None" "array_index (ascii ''createdAt'') = None"
  "array_index (ascii ''updatedAt'') = None"
  by (simp_all add: array_index_def ascii_def isDigit_def)

lemma new_todo_ok:
  assumes "text \<noteq> []" and "trim text = text"
  shows "valid_todo [(ascii ''id'', JStr (generateId now random36)), (ascii ''text'', JStr text),
           (ascii ''completed'', JBool False), (ascii ''createdAt'', JStr iso1),
           (ascii ''updatedAt'', JStr iso2)] \<and>
         js_value (JObj [(ascii ''id'', JStr (generateId now random36)), (ascii ''text'', JStr text),
           (ascii ''completed'', JBool False), (ascii ''createdAt'', JStr iso1),
           (ascii ''updatedAt'', JStr iso2)])"
proof -
  have k: "keys_ordered [ascii ''id'', ascii ''text'', ascii ''completed'', ascii ''createdAt'',
      ascii ''updatedAt'']"
    by (simp add: keys_ordered_def key_before_def plain_keys) (simp add: ascii_def)
  show ?thesis
    using assms k by (simp add: valid_todo_def get_prop_def generateId_nonempty) (simp add: ascii_def)
qed

lemma obj_ok_js: "obj_ok t \<longleftrightarrow> js_value (JObj t)"
  by (simp add: obj_ok_def)

lemma valid_set_other:
  "valid_todo t \<Longrightarrow> k \<noteq> ascii ''id'' \<Longrightarrow> k \<noteq> ascii ''text'' \<Longrightarrow> valid_todo (set_prop k v t)"
  by (simp add: valid_todo_def get_prop_set_prop)

lemma valid_set_text:
  "valid_todo t \<Longrightarrow> s \<noteq> [] \<Longrightarrow> trim s = s \<Longrightarrow> valid_todo (set_prop (ascii ''text'') (JStr s) t)"
  by (simp add: valid_todo_def get_prop_set_prop)

lemma store_ok_update:
  "store_ok st \<Longrightarrow> valid_todo t \<Longrightarrow> js_value (JObj t) \<Longrightarrow> store_ok (st\<lparr>todos := (todos st)[i := t]\<rparr>)"
  unfolding store_ok_def using set_update_subset_insert[of "todos st" i t] by auto

lemma store_ok_todos: "todos st' = todos st \<Longrightarrow> store_ok st \<Longrightarrow> store_ok st'"
  by (simp add: store_ok_def)

lemma store_ok_cong: "todos a = todos b \<Longrightarrow> store_ok a = store_ok b"
  by (simp add: store_ok_def)

lemma handleAddTodo_ok: "store_ok st \<Longrightarrow> store_ok (handleAddTodo now random36 iso1 iso2 setItemOk st)"
proof (cases "trim (todoInput st) = []")
  case True
  then show "store_ok st \<Longrightarrow> ?thesis" by (simp add: handleAddTodo_def)
next
  case False
  assume ok: "store_ok st"
  define new where "new = [(ascii ''id'', JStr (generateId now random36)),
      (ascii ''text'', JStr (trim (todoInput st))), (ascii ''completed'', JBool False),
      (ascii ''createdAt'', JStr iso1), (ascii ''updatedAt'', JStr iso2)]"
  have tod: "todos (handleAddTodo now random36 iso1 iso2 setItemOk st) = new # todos st"
    using False by (cases setItemOk)
      (simp_all add: handleAddTodo_def saveTodos_def showNotification_def Let_def new_def)
  from new_todo_ok[OF False trim_idem, of now random36 iso1 iso2]
  have "valid_todo new" "js_value (JObj new)" by (simp_all only: new_def)
  with ok show ?thesis
    unfolding store_ok_def tod by (simp del: js_value.simps)
qed

lemma toggled_ok:
  assumes "valid_todo t" and "js_value (JObj t)"
  shows "valid_todo (set_prop (ascii ''updatedAt'') (JStr isoNow) (set_prop (ascii ''completed'') (JBool b) t))"
    and "js_value (JObj (set_prop (ascii ''updatedAt'') (JStr isoNow) (set_prop (ascii ''completed'') (JBool b) t)))"
proof -
  have ne: "ascii ''completed'' \<noteq> ascii ''id''" "ascii ''completed'' \<noteq> ascii ''text''"
    "ascii ''updatedAt'' \<noteq> ascii ''id''" "ascii ''updatedAt'' \<noteq> ascii ''text''"
    by (simp_all add: ascii_def)
  from assms(1) ne show "valid_todo (set_prop (ascii ''updatedAt'') (JStr isoNow)
      (set_prop (ascii ''completed'') (JBool b) t))"
    by (intro valid_set_other) simp_all
  from assms(2) have "obj_ok t" by (simp add: obj_ok_js)
  then have "obj_ok (set_prop (ascii ''completed'') (JBool b) t)"
    by (rule set_prop_ok) (simp_all add: plain_keys)
  then have "obj_ok (set_prop (ascii ''updatedAt'') (JStr isoNow) (set_prop (ascii ''completed'') (JBool b) t))"
    by (rule set_prop_ok) (simp_all add: plain_keys)
  then show "js_value (JObj (set_prop (ascii ''updatedAt'') (JStr isoNow)
      (set_prop (ascii ''completed'') (JBool b) t)))"
    by (simp only: obj_ok_js)
qed

lemma toggleTodo_ok: "store_ok st \<Longrightarrow> store_ok (toggleTodo tid isoNow setItemOk st)"
proof (cases "find_todo tid (todos st)")
  case None
  then show "store_ok st \<Longrightarrow> ?thesis" by (simp add: toggleTodo_def)
next
  case (Some i)
  assume ok: "store_ok st"
  define new where "new = set_prop (ascii ''updatedAt'') (JStr isoNow)
      (set_prop (ascii ''completed'') (JBool (\<not> truthy (get_prop (todos st ! i) (ascii ''completed''))))
        (todos st ! i))"
  from find_todo_Some[OF Some] have "todos st ! i \<in> set (todos st)" by simp
  with ok have t: "valid_todo (todos st ! i)" "js_value (JObj (todos st ! i))"
    by (simp_all add: store_ok_def)
  from toggled_ok[OF t] have "valid_todo new" "js_value (JObj new)" by (simp_all only: new_def)
  from store_ok_update[OF ok this] have u: "store_ok (st\<lparr>todos := (todos st)[i := new]\<rparr>)" .
  have "todos (toggleTodo tid isoNow setItemOk st) = (todos st)[i := new]"
    using Some by (cases setItemOk)
      (simp_all add: toggleTodo_def saveTodos_def showNotification_def Let_def new_def)
  then have "store_ok (toggleTodo tid isoNow setItemOk st) = store_ok (st\<lparr>todos := (todos st)[i := new]\<rparr>)"
    by (intro store_ok_cong) simp
  with u show ?thesis by simp
qed

lemma edited_ok:
  assumes "valid_todo t" and "js_value (JObj t)" and "s \<noteq> []" and "trim s = s"
  shows "valid_todo (set_prop (ascii ''updatedAt'') (JStr isoNow) (set_prop (ascii ''text'') (JStr s) t))"
    and "js_value (JObj (set_prop (ascii ''updatedAt'') (JStr isoNow) (set_prop (ascii ''text'') (JStr s) t)))"
proof -
  have ne: "ascii ''updatedAt'' \<noteq> ascii ''id''" "ascii ''updatedAt'' \<noteq> ascii ''text''"
    by (simp_all add: ascii_def)
  show "valid_todo (set_prop (ascii ''updatedAt'') (JStr isoNow) (set_prop (ascii ''text'') (JStr s) t))"
    by (rule valid_set_other[OF valid_set_text[OF assms(1,3,4)] ne])
  from assms(2) have "obj_ok t" by (simp add: obj_ok_js)
  then have "obj_ok (set_prop (ascii ''text'') (JStr s) t)"
    by (rule set_prop_ok) (simp_all add: plain_keys)
  then have "obj_ok (set_prop (ascii ''updatedAt'') (JStr isoNow) (set_prop (ascii ''text'') (JStr s) t))"
    by (rule set_prop_ok) (simp_all add: plain_keys)
  then show "js_value (JObj (set_prop (ascii ''updatedAt'') (JStr isoNow)
      (set_prop (ascii ''text'') (JStr s) t)))"
    by (simp only: obj_ok_js)
qed

lemma saveEdit_ok: "store_ok st \<Longrightarrow> store_ok (saveEdit isoNow setItemOk st)"
proof -
  assume ok: "store_ok st"
  have "todos (saveEdit isoNow setItemOk st) = todos st \<or>
      (\<exists>idx. trim (editInput st) \<noteq> [] \<and> nat idx < length (todos st) \<and>
         todos (saveEdit isoNow setItemOk st) =
           (todos st)[nat idx := set_prop (ascii ''updatedAt'') (JStr isoNow)
              (set_prop (ascii ''text'') (JStr (trim (editInput st))) (todos st ! nat idx))])"
    by (cases setItemOk)
      (auto simp: saveEdit_def saveTodos_def showNotification_def closeModal_def Let_def
        split: option.splits)
  then show ?thesis
  proof
    assume "todos (saveEdit isoNow setItemOk st) = todos st"
    from store_ok_todos[OF this ok] show ?thesis .
  next
    assume "\<exists>idx. trim (editInput st) \<noteq> [] \<and> nat idx < length (todos st) \<and>
         todos (saveEdit isoNow setItemOk st) =
           (todos st)[nat idx := set_prop (ascii ''updatedAt'') (JStr isoNow)
              (set_prop (ascii ''text'') (JStr (trim (editInput st))) (todos st ! nat idx))]"
    then obtain idx where ne: "trim (editInput st) \<noteq> []" and l: "nat idx < length (todos st)"
      and tod: "todos (saveEdit isoNow setItemOk st) =
           (todos st)[nat idx := set_prop (ascii ''updatedAt'') (JStr isoNow)
              (set_prop (ascii ''text'') (JStr (trim (editInput st))) (todos st ! nat idx))]"
      by blast
    from l have "todos st ! nat idx \<in> set (todos st)" by simp
    with ok have t: "valid_todo (todos st ! nat idx)" "js_value (JObj (todos st ! nat idx))"
      by (simp_all add: store_ok_def)
    note ed = edited_ok[OF t ne trim_idem, of isoNow]
    note u = store_ok_update[OF ok ed, of "nat idx"]
    have "store_ok (saveEdit isoNow setItemOk st) =
        store_ok (st\<lparr>todos := (todos st)[nat idx := set_prop (ascii ''updatedAt'') (JStr isoNow)
              (set_prop (ascii ''text'') (JStr (trim (editInput st))) (todos st ! nat idx))]\<rparr>)"
      by (intro store_ok_cong) (simp add: tod)
    with u show ?thesis by simp
  qed
qed

lemma store_ok_filter: "store_ok st \<Longrightarrow> todos st' = filter P (todos st) \<Longrightarrow> store_ok st'"
  by (simp add: store_ok_def del: js_value.simps)

lemma deleteTodo_ok: "store_ok st \<Longrightarrow> store_ok (deleteTodo tid confirmed setItemOk st)"
proof -
  assume ok: "store_ok st"
  have "todos (deleteTodo tid confirmed setItemOk st) = todos st \<or>
      todos (deleteTodo tid confirmed setItemOk st) =
        filter (\<lambda>t. \<not> strict_eq (get_prop t (ascii ''id'')) tid) (todos st)"
    by (cases setItemOk)
      (auto simp: deleteTodo_def saveTodos_def showNotification_def split: option.splits)
  with ok show ?thesis
    by (auto intro: store_ok_todos store_ok_filter)
qed

lemma clearCompleted_ok: "store_ok st \<Longrightarrow> store_ok (clearCompleted confirmed setItemOk st)"
proof -
  assume ok: "store_ok st"
  have "todos (clearCompleted confirmed setItemOk st) = todos st \<or>
      todos (clearCompleted confirmed setItemOk st) = filter (\<lambda>t. \<not> isCompleted t) (todos st)"
    by (cases setItemOk)
      (auto simp: clearCompleted_def saveTodos_def showNotification_def Let_def)
  with ok show ?thesis
    by (auto intro: store_ok_todos store_ok_filter)
qed

lemma valid_entries_set:
  "t \<in> set (valid_entries xs) \<Longrightarrow> valid_todo t \<and> JObj t \<in> set xs"
proof (induction xs)
  case Nil
  then show ?case by simp
next
  case (Cons x xs)
  then show ?case
    by (cases x) (auto split: if_splits)
qed

lemma valid_entries_ok:
  "\<forall>x\<in>set xs. js_value x \<Longrightarrow> \<forall>t\<in>set (valid_entries xs). valid_todo t \<and> js_value (JObj t)"
  using valid_entries_set by blast

lemma loadTodos_ok:
  assumes "store_ok st"
  shows "case loadTodos st of Inr st' \<Rightarrow> store_ok st' | Inl (e, st') \<Rightarrow> store_ok st'"
proof (cases "storage st")
  case None
  with assms show ?thesis by (simp add: loadTodos_def)
next
  case (Some stored)
  show ?thesis
  proof (cases "stored = []")
    case True
    with Some assms show ?thesis by (simp add: loadTodos_def)
  next
    case False
    show ?thesis
    proof (cases "\<exists>xs. JSON_parse stored = Some (JArr xs)")
      case True
      then obtain xs where p: "JSON_parse stored = Some (JArr xs)" ..
      from JSON_parse_value[OF p] have "\<forall>x\<in>set xs. js_value x" by simp
      from valid_entries_ok[OF this] Some False p show ?thesis
        by (simp add: loadTodos_def store_ok_def del: js_value.simps)
    next
      case bad: False
      then have "loadTodos st = Inl (DeserializationError, st\<lparr>storage := None, todos := []\<rparr>)"
        using Some False by (auto simp: loadTodos_def split: option.splits json.splits)
      then show ?thesis by (simp add: store_ok_def)
    qed
  qed
qed

lemma initializeApp_ok: "store_ok st \<Longrightarrow> store_ok (initializeApp st)"
proof -
  assume ok: "store_ok st"
  show ?thesis
  proof (cases "loadTodos st")
    case (Inr st')
    with loadTodos_ok[OF ok] show ?thesis by (simp add: initializeApp_def)
  next
    case (Inl p)
    obtain e st' where p: "p = (e, st')" by (cases p)
    with Inl loadTodos_ok[OF ok] have "store_ok st'" by simp
    moreover have "todos (initializeApp st) = todos st'"
      using Inl p by (simp add: initializeApp_def showNotification_def)
    ultimately show ?thesis using store_ok_cong[of "initializeApp st" st'] by simp
  qed
qed

lemma reachable_store_ok: "reachable st \<Longrightarrow> store_ok st"
proof (induction rule: reachable.induct)
  case (started stored)
  have "store_ok (constructed stored)" by (simp add: store_ok_def constructed_def)
  then show ?case by (rule initializeApp_ok)
next
  case (typed st input)
  from typed.IH show ?case by (simp add: store_ok_def)
next
  case (typed_edit st input)
  from typed_edit.IH show ?case by (simp add: store_ok_def)
next
  case (added st now random36 iso1 iso2 setItemOk)
  from added.IH show ?case by (rule handleAddTodo_ok)
next
  case (filtered st f)
  from filtered.IH show ?case by (simp add: store_ok_def handleFilterChange_def)
next
  case (toggled st tid isoNow setItemOk)
  from toggled.IH show ?case by (rule toggleTodo_ok)
next
  case (editing st tid)
  from editing.IH show ?case
    by (simp add: store_ok_def editTodo_def showModal_def split: option.splits)
next
  case (saved st isoNow setItemOk)
  from saved.IH show ?case by (rule saveEdit_ok)
next
  case (closed st)
  from closed.IH show ?case by (simp add: store_ok_def closeModal_def)
next
  case (deleted st tid confirmed setItemOk)
  from deleted.IH show ?case by (rule deleteTodo_ok)
next
  case (cleared st confirmed setItemOk)
  from cleared.IH show ?case by (rule clearCompleted_ok)
qed

lemma load_saved:
  assumes "store_ok st"
  shows "loadTodos (st'\<lparr>storage := Some (JSON_stringify (JArr (map JObj (todos st))))\<rparr>) =
     Inr (st'\<lparr>storage := Some (JSON_stringify (JArr (map JObj (todos st)))), todos := todos st\<rparr>)"
proof -
  from assms have "js_value (JArr (map JObj (todos st)))"
    by (simp add: store_ok_def del: js_value.simps(6) add: js_value.simps(5))
  then have "JSON_parse (JSON_stringify (JArr (map JObj (todos st)))) = Some (JArr (map JObj (todos st)))"
    by (rule JSON_parse_stringify)
  moreover have "valid_entries (map JObj (todos st)) = todos st"
    using assms by (intro valid_entries_map) (simp add: store_ok_def)
  ultimately show ?thesis by (simp add: loadTodos_def)
qed

section \<open>Adding a todo\<close>




section \<open>Toggling a todo\<close>



section \<open>Deleting a todo\<close>




section \<open>Clearing the completed todos\<close>




section \<open>Loading a corrupted slot\<close>

text \<open>
  Claim C5, as the code has it. When the slot holds a non-empty text that
  \<^verbatim>\<open>JSON.parse\<close> rejects, or that parses to anything but an array,
  \<^verbatim>\<open>loadTodos\<close> removes the slot, resets the list to empty and throws;
  \<^verbatim>\<open>initializeApp\<close> reports the error in a notification. The application
  stays usable: a following \<^verbatim>\<open>handleAddTodo\<close> with text in the input
  yields the list of that one todo and writes it to the slot. An empty text in
  the slot is treated like an absent one.
\<close>

theorem loadTodos_corrupted:
  "storage st = Some stored \<and> stored \<noteq> [] \<and> (\<forall>xs. JSON_parse stored \<noteq> Some (JArr xs)) \<longrightarrow>
     loadTodos st = Inl (DeserializationError, st\<lparr>storage := None, todos := []\<rparr>) \<and>
     todos (initializeApp st) = [] \<and>
     storage (initializeApp st) = None \<and>
     notifications (initializeApp st) =
       notifications st @ [(ascii ''Error loading todos. Please refresh the page.'', ascii ''error'')] \<and>
     (trim (todoInput st) \<noteq> [] \<longrightarrow>
        todos (handleAddTodo now random36 iso1 iso2 True (initializeApp st)) =
          [[(ascii ''id'', JStr (generateId now random36)),
            (ascii ''text'', JStr (trim (todoInput st))),
            (ascii ''completed'', JBool False),
            (ascii ''createdAt'', JStr iso1),
            (ascii ''updatedAt'', JStr iso2)]] \<and>
        storage (handleAddTodo now random36 iso1 iso2 True (initializeApp st)) =
          Some (JSON_stringify (JArr (map JObj
            (todos (handleAddTodo now random36 iso1 iso2 True (initializeApp st)))))))"
proof (intro impI, elim conjE)
  assume s: "storage st = Some stored" and ne: "stored \<noteq> []"
    and bad: "\<forall>xs. JSON_parse stored \<noteq> Some (JArr xs)"
  have l: "loadTodos st = Inl (DeserializationError, st\<lparr>storage := None, todos := []\<rparr>)"
    using s ne bad by (auto simp: loadTodos_def split: option.splits json.splits)
  have i: "initializeApp st =
      showNotification (ascii ''Error loading todos. Please refresh the page.'') (ascii ''error'')
        (st\<lparr>storage := None, todos := []\<rparr>)"
    by (simp add: initializeApp_def l)
  show "loadTodos st = Inl (DeserializationError, st\<lparr>storage := None, todos := []\<rparr>) \<and>
     todos (initializeApp st) = [] \<and>
     storage (initializeApp st) = None \<and>
     notifications (initializeApp st) =
       notifications st @ [(ascii ''Error loading todos. Please refresh the page.'', ascii ''error'')] \<and>
     (trim (todoInput st) \<noteq> [] \<longrightarrow>
        todos (handleAddTodo now random36 iso1 iso2 True (initializeApp st)) =
          [[(ascii ''id'', JStr (generateId now random36)),
            (ascii ''text'', JStr (trim (todoInput st))),
            (ascii ''completed'', JBool False),
            (ascii ''createdAt'', JStr iso1),
            (ascii ''updatedAt'', JStr iso2)]] \<and>
        storage (handleAddTodo now random36 iso1 iso2 True (initializeApp st)) =
          Some (JSON_stringify (JArr (map JObj
            (todos (handleAddTodo now random36 iso1 iso2 True (initializeApp st)))))))"
    unfolding i using l
    by (simp add: showNotification_def handleAddTodo_def saveTodos_def Let_def)
qed

text \<open>The theorem for a slot holding \<^verbatim>\<open>{oops\<close>.\<close>

theorem loadTodos_corrupted_witness:
  "storage ((constructed (Some (ascii ''{oops'')))\<lparr>todoInput := ascii ''Buy milk''\<rparr>) = Some (ascii ''{oops'') \<and>
   ascii ''{oops'' \<noteq> [] \<and>
   JSON_parse (ascii ''{oops'') = None \<and>
   loadTodos ((constructed (Some (ascii ''{oops'')))\<lparr>todoInput := ascii ''Buy milk''\<rparr>) =
     Inl (DeserializationError,
          (constructed (Some (ascii ''{oops'')))\<lparr>todoInput := ascii ''Buy milk'', storage := None, todos := []\<rparr>) \<and>
   todos (handleAddTodo 1730000000000 (ascii ''0.4fzyo82mvyr'') (ascii ''2024-10-28T09:00:00.000Z'')
            (ascii ''2024-10-28T09:00:00.000Z'') True
            (initializeApp ((constructed (Some (ascii ''{oops'')))\<lparr>todoInput := ascii ''Buy milk''\<rparr>))) =
     [[(ascii ''id'', JStr (generateId 1730000000000 (ascii ''0.4fzyo82mvyr''))),
       (ascii ''text'', JStr (ascii ''Buy milk'')),
       (ascii ''completed'', JBool False),
       (ascii ''createdAt'', JStr (ascii ''2024-10-28T09:00:00.000Z'')),
       (ascii ''updatedAt'', JStr (ascii ''2024-10-28T09:00:00.000Z''))]]"
proof -
  have p: "JSON_parse (ascii ''{oops'') = None" by code_simp
  have a: "storage ((constructed (Some (ascii ''{oops'')))\<lparr>todoInput := ascii ''Buy milk''\<rparr>) = Some (ascii ''{oops'')"
    by (simp add: constructed_def)
  have b: "ascii ''{oops'' \<noteq> []" by (simp add: ascii_def)
  have c: "\<forall>xs. JSON_parse (ascii ''{oops'') \<noteq> Some (JArr xs)" by (simp add: p)
  have t: "trim (todoInput ((constructed (Some (ascii ''{oops'')))\<lparr>todoInput := ascii ''Buy milk''\<rparr>)) = ascii ''Buy milk''"
    by (simp add: sample_defs)
  have ne: "ascii ''Buy milk'' \<noteq> []" by (simp add: ascii_def)
  from loadTodos_corrupted [of "(constructed (Some (ascii ''{oops'')))\<lparr>todoInput := ascii ''Buy milk''\<rparr>"
      "ascii ''{oops''" 1730000000000 "ascii ''0.4fzyo82mvyr''" "ascii ''2024-10-28T09:00:00.000Z''"
      "ascii ''2024-10-28T09:00:00.000Z''"] p a b c t ne
  show ?thesis by simp
qed

text \<open>
  The empty text is not JSON, yet the guard \<^verbatim>\<open>if (stored)\<close> skips it:
  nothing is thrown, the slot is kept and no notification appears.
\<close>

theorem loadTodos_counterexample:
  "JSON_parse [] = None \<and>
   loadTodos (constructed (Some [])) = Inr (constructed (Some [])) \<and>
   storage (initializeApp (constructed (Some []))) = Some [] \<and>
   notifications (initializeApp (constructed (Some []))) = []"
proof -
  have "JSON_parse [] = None" by code_simp
  then show ?thesis
    by (simp add: loadTodos_def initializeApp_def constructed_def)
qed

section \<open>Saving and loading again\<close>



text \<open>
  The hypothesis is no restriction on the application itself: it holds of every
  list the application reaches, whatever the slot held at the start, so every
  such list is restored by saving it and loading it again.
\<close>

theorem reachable_roundtrip:
  "reachable st \<Longrightarrow>
     loadTodos (st'\<lparr>storage := Some (JSON_stringify (JArr (map JObj (todos st))))\<rparr>) =
       Inr (st'\<lparr>storage := Some (JSON_stringify (JArr (map JObj (todos st)))), todos := todos st\<rparr>)"
  by (rule load_saved) (rule reachable_store_ok)

section \<open>The filtered view\<close>

text \<open>
  Claim C7. \<^verbatim>\<open>getFilteredTodos\<close> returns the whole list under the filter
  \<open>all\<close>, the todos that are not completed under \<open>active\<close>, and the
  completed ones under \<open>completed\<close>; the result is always a subsequence of
  the list, so the order is kept. A todo whose \<open>completed\<close> is a boolean is
  completed exactly when that boolean is true. The function returns a list and
  no state: the list of the application is not touched.
\<close>

theorem getFilteredTodos_views:
  "(currentFilter st = ascii ''all'' \<longrightarrow> getFilteredTodos st = todos st) \<and>
   (currentFilter st = ascii ''active'' \<longrightarrow>
      getFilteredTodos st = filter (\<lambda>t. \<not> isCompleted t) (todos st)) \<and>
   (currentFilter st = ascii ''completed'' \<longrightarrow>
      getFilteredTodos st = filter isCompleted (todos st)) \<and>
   subseq (getFilteredTodos st) (todos st) \<and>
   (\<forall>t b. get_prop t (ascii ''completed'') = Some (JBool b) \<longrightarrow> isCompleted t = b)"
  by (simp add: getFilteredTodos_def ascii_def isCompleted_def)

text \<open>The theorem at the sample state, under each of the three filters.\<close>

theorem getFilteredTodos_views_witness:
  "currentFilter sample_app = ascii ''all'' \<and>
   getFilteredTodos sample_app = todos sample_app \<and>
   getFilteredTodos (sample_app\<lparr>currentFilter := ascii ''active''\<rparr>) =
     [sample_todo ''m2r1bz7k9x'' ''Buy milk'' False] \<and>
   getFilteredTodos (sample_app\<lparr>currentFilter := ascii ''completed''\<rparr>) =
     [sample_todo ''m2r1bz7k4f'' ''Walk dog'' True] \<and>
   get_prop (sample_todo ''m2r1bz7k4f'' ''Walk dog'' True) (ascii ''completed'') = Some (JBool True) \<and>
   isCompleted (sample_todo ''m2r1bz7k4f'' ''Walk dog'' True) = True"
proof -
  have a: "currentFilter sample_app = ascii ''all''"
    by (simp add: sample_app_def constructed_def)
  have b: "filter isCompleted (todos sample_app) = [sample_todo ''m2r1bz7k4f'' ''Walk dog'' True]"
    by (simp add: sample_defs)
  have c: "filter (\<lambda>t. \<not> isCompleted t) (todos sample_app) = [sample_todo ''m2r1bz7k9x'' ''Buy milk'' False]"
    by (simp add: sample_defs)
  have d: "get_prop (sample_todo ''m2r1bz7k4f'' ''Walk dog'' True) (ascii ''completed'') = Some (JBool True)"
    by (simp add: sample_defs)
  from getFilteredTodos_views [of sample_app]
    getFilteredTodos_views [of "sample_app\<lparr>currentFilter := ascii ''active''\<rparr>"]
    getFilteredTodos_views [of "sample_app\<lparr>currentFilter := ascii ''completed''\<rparr>"] a b c d
  show ?thesis by simp
qed

section \<open>Empty text\<close>

text \<open>
  Claim C8. When the input is empty after trimming, \<^verbatim>\<open>handleAddTodo\<close>
  returns the state it was given, and so does \<^verbatim>\<open>saveEdit\<close> for the edit
  field: no todo is created or changed, nothing is written and nothing is
  reported. Neither operation has an error result.
\<close>

theorem empty_text_is_noop:
  "(trim (todoInput st) = [] \<longrightarrow> handleAddTodo now random36 iso1 iso2 setItemOk st = st) \<and>
   (trim (editInput st) = [] \<longrightarrow> saveEdit isoNow setItemOk st = st)"
  by (simp add: handleAddTodo_def saveEdit_def)

text \<open>The theorem for inputs made of spaces, a tab and a no-break space.\<close>

theorem empty_text_is_noop_witness:
  "trim (todoInput ((constructed None)\<lparr>todoInput := ascii ''   '', editInput := [0x9, 0xA0]\<rparr>)) = [] \<and>
   trim (editInput ((constructed None)\<lparr>todoInput := ascii ''   '', editInput := [0x9, 0xA0]\<rparr>)) = [] \<and>
   handleAddTodo 1730000000000 (ascii ''0.4fzyo82mvyr'') (ascii ''2024-10-27T03:33:20.000Z'')
      (ascii ''2024-10-27T03:33:20.000Z'') True
      ((constructed None)\<lparr>todoInput := ascii ''   '', editInput := [0x9, 0xA0]\<rparr>)
     = (constructed None)\<lparr>todoInput := ascii ''   '', editInput := [0x9, 0xA0]\<rparr> \<and>
   saveEdit (ascii ''2024-10-27T03:33:20.000Z'') True
      ((constructed None)\<lparr>todoInput := ascii ''   '', editInput := [0x9, 0xA0]\<rparr>)
     = (constructed None)\<lparr>todoInput := ascii ''   '', editInput := [0x9, 0xA0]\<rparr>"
  using empty_text_is_noop [of "(constructed None)\<lparr>todoInput := ascii ''   '', editInput := [0x9, 0xA0]\<rparr>"
      1730000000000 "ascii ''0.4fzyo82mvyr''" "ascii ''2024-10-27T03:33:20.000Z''"
      "ascii ''2024-10-27T03:33:20.000Z''" True "ascii ''2024-10-27T03:33:20.000Z''"]
  by (simp add: constructed_def trim_def ascii_def isWhiteSpace_def)

section \<open>A failing write\<close>



section \<open>Toggle and edit change one todo only\<close>



end
